theory Spec2Isabelle
  imports Complex_Main "HOL-Library.Multiset" "HOL-Library.Log_Nat"
begin

unbundle bit_operations_syntax

section \<open>The cache simulator of \<^verbatim>\<open>src/main.py\<close>\<close>

subsection \<open>Data model\<close>

text \<open>
  The exceptions the class can raise: \<^verbatim>\<open>IndexError\<close> from a list subscript or
  \<^verbatim>\<open>pop\<close> out of range, \<^verbatim>\<open>ValueError\<close> from \<^verbatim>\<open>random.randint\<close> on an empty
  range.
\<close>

datatype py_error = IndexError | ValueError

text \<open>
  A line of a set is the Python list \<^verbatim>\<open>[tag, valid, timestamp]\<close>. Lists compare by
  value, which is what \<^verbatim>\<open>list.remove\<close> uses, so a triple is a faithful image.
\<close>

type_synonym entry = "int \<times> bool \<times> int"

definition e_tag :: "entry \<Rightarrow> int" where
  "e_tag entry = fst entry"

definition e_valid :: "entry \<Rightarrow> bool" where
  "e_valid entry = fst (snd entry)"

definition e_time :: "entry \<Rightarrow> int" where
  "e_time entry = snd (snd entry)"

text \<open>The fields of class \<^verbatim>\<open>Cache\<close>, in the order \<^verbatim>\<open>__init__\<close> assigns them.\<close>

record Cache =
  nsets :: int
  bsize :: int
  assoc :: int
  subst :: string
  cache :: "entry list list"
  total_accesses :: int
  hits :: int
  misses :: int
  compulsory_misses :: int
  capacity_misses :: int
  conflict_misses :: int
  seen_tags :: "(int \<times> int) set"
  address_bits :: int
  offset_bits :: nat
  index_bits :: nat
  tag_bits :: int

subsection \<open>Address fields\<close>

text \<open>
  \<^verbatim>\<open>int.bit_length()\<close>: the number of binary digits of the absolute value, 0 for 0.
\<close>

fun bit_length_nat :: "nat \<Rightarrow> nat" where
  "bit_length_nat n = (if n = 0 then 0 else Suc (bit_length_nat (n div 2)))"

declare bit_length_nat.simps [simp del]

definition bit_length :: "int \<Rightarrow> nat" where
  "bit_length x = bit_length_nat (nat \<bar>x\<bar>)"

text \<open>\<^verbatim>\<open>Cache.log2\<close> (lines 29-31).\<close>

definition log2 :: "int \<Rightarrow> nat" where
  "log2 x = bit_length (x - 1)"

text \<open>
  \<^verbatim>\<open>str.upper\<close> on the ASCII letters; the policy letters the class compares with
  are ASCII.
\<close>

definition upper_char :: "char \<Rightarrow> char" where
  "upper_char c =
     (if 97 \<le> (of_char c :: nat) \<and> (of_char c :: nat) \<le> 122
      then char_of ((of_char c :: nat) - 32) else c)"

definition upper :: "string \<Rightarrow> string" where
  "upper s = map upper_char s"

text \<open>
  \<^verbatim>\<open>Cache.__init__\<close> with \<^verbatim>\<open>calculate_address_fields\<close> (lines 7-27): the sets are
  \<^verbatim>\<open>nsets\<close> separate empty lists (\<^verbatim>\<open>range\<close> of a non-positive number is empty).
\<close>

definition Cache_init :: "int \<Rightarrow> int \<Rightarrow> int \<Rightarrow> string \<Rightarrow> Cache" where
  "Cache_init n b a s =
     \<lparr> nsets = n, bsize = b, assoc = a, subst = upper s,
       cache = replicate (nat n) [],
       total_accesses = 0, hits = 0, misses = 0,
       compulsory_misses = 0, capacity_misses = 0, conflict_misses = 0,
       seen_tags = {},
       address_bits = 32,
       offset_bits = log2 b,
       index_bits = log2 n,
       tag_bits = 32 - int (log2 b) - int (log2 n) \<rparr>"

text \<open>
  \<^verbatim>\<open>get_address_components\<close> (lines 33-39). Python's \<^verbatim>\<open><<\<close>, \<^verbatim>\<open>>>\<close> and \<^verbatim>\<open>&\<close> on
  unbounded integers are \<open>push_bit\<close>, \<open>drop_bit\<close> and \<open>AND\<close> on \<open>int\<close>. The offset mask
  is computed and never used.
\<close>

definition get_address_components :: "Cache \<Rightarrow> int \<Rightarrow> int \<times> int" where
  "get_address_components self address =
     (let offset_mask = push_bit (offset_bits self) (1::int) - 1;
          index_mask = push_bit (index_bits self) (1::int) - 1;
          index = drop_bit (offset_bits self) address AND index_mask;
          tag = drop_bit (offset_bits self + index_bits self) address
      in (tag, index))"

subsection \<open>One access\<close>

text \<open>
  A Python subscript \<^verbatim>\<open>xs[i]\<close>: a negative \<^verbatim>\<open>i\<close> counts from the end, and a
  position outside the list raises \<^verbatim>\<open>IndexError\<close>.
\<close>

definition py_index :: "'a list \<Rightarrow> int \<Rightarrow> py_error + nat" where
  "py_index xs i =
     (let n = int (length xs); j = (if i < 0 then n + i else i)
      in if 0 \<le> j \<and> j < n then Inr (nat j) else Inl IndexError)"

text \<open>
  The hit loop (lines 48-49): the position of the first entry whose tag matches and
  whose valid flag is set.
\<close>

fun find_hit :: "int \<Rightarrow> entry list \<Rightarrow> nat option" where
  "find_hit tag [] = None"
| "find_hit tag (entry # rest) =
     (if e_tag entry = tag \<and> e_valid entry then Some 0
      else map_option Suc (find_hit tag rest))"

text \<open>
  What a hit does to its set (lines 51-55). Under \<^verbatim>\<open>'L'\<close> the entry's timestamp is
  overwritten in place; under \<^verbatim>\<open>'F'\<close> \<^verbatim>\<open>remove\<close> deletes the first element equal to
  the entry and \<^verbatim>\<open>append\<close> puts the entry at the back; any other policy leaves the set.
\<close>

definition touch :: "string \<Rightarrow> int \<Rightarrow> entry list \<Rightarrow> nat \<Rightarrow> entry list" where
  "touch pol now set_content k =
     (let entry = set_content ! k in
      if pol = ''L'' then set_content[k := (e_tag entry, e_valid entry, now)]
      else if pol = ''F'' then remove1 entry set_content @ [entry]
      else set_content)"

text \<open>
  The classification of a miss (lines 59-75), on the object whose \<^verbatim>\<open>total_accesses\<close>
  is already incremented: \<^verbatim>\<open>misses\<close> is incremented, the pair is added to
  \<^verbatim>\<open>seen_tags\<close>, and one of the three sub-counters is incremented.
\<close>

definition classify_miss :: "Cache \<Rightarrow> int \<Rightarrow> int \<Rightarrow> bool \<Rightarrow> bool \<Rightarrow> Cache" where
  "classify_miss self tag index set_full cache_full =
     (let self1 = self\<lparr>misses := misses self + 1\<rparr>;
          is_compulsory = ((tag, index) \<notin> seen_tags self1);
          self2 = self1\<lparr>seen_tags := insert (tag, index) (seen_tags self1)\<rparr>
      in if is_compulsory then self2\<lparr>compulsory_misses := compulsory_misses self2 + 1\<rparr>
         else if set_full \<and> cache_full then self2\<lparr>capacity_misses := capacity_misses self2 + 1\<rparr>
         else if set_full then self2\<lparr>conflict_misses := conflict_misses self2 + 1\<rparr>
         else self2\<lparr>compulsory_misses := compulsory_misses self2 + 1\<rparr>)"

text \<open>
  \<^verbatim>\<open>random.randint(a, b)\<close>: some integer of \<open>[a, b]\<close>, \<^verbatim>\<open>ValueError\<close> when the range
  is empty. The generator is outside the program; the model takes the number it draws
  from a raw value \<open>draw\<close> reduced into the range, so every result the call can give is
  covered and no other.
\<close>

definition randint :: "int \<Rightarrow> int \<Rightarrow> int \<Rightarrow> py_error + int" where
  "randint draw a b = (if b < a then Inl ValueError else Inr (a + draw mod (b - a + 1)))"

text \<open>
  The scan for the least recently used entry (lines 91-96): the loop over
  \<^verbatim>\<open>enumerate(set_content[1:], 1)\<close> with its running \<^verbatim>\<open>min_time\<close> and \<^verbatim>\<open>lru_idx\<close>.
\<close>

fun lru_scan :: "entry list \<Rightarrow> nat \<Rightarrow> int \<Rightarrow> nat \<Rightarrow> nat" where
  "lru_scan [] i min_time lru_idx = lru_idx"
| "lru_scan (entry # rest) i min_time lru_idx =
     (if e_time entry < min_time then lru_scan rest (Suc i) (e_time entry) i
      else lru_scan rest (Suc i) min_time lru_idx)"

text \<open>
  Installing the new entry (lines 79-97). \<^verbatim>\<open>pop(0)\<close> and \<^verbatim>\<open>set_content[0]\<close> raise
  \<^verbatim>\<open>IndexError\<close> on an empty list; a policy other than the three letters installs
  nothing in a full set.
\<close>

definition install ::
  "string \<Rightarrow> int \<Rightarrow> int \<Rightarrow> bool \<Rightarrow> entry list \<Rightarrow> entry \<Rightarrow> py_error + entry list" where
  "install pol draw assoc_n set_full set_content new_entry =
     (if \<not> set_full then Inr (set_content @ [new_entry])
      else if pol = ''R'' then
        (case randint draw 0 (assoc_n - 1) of
           Inl e \<Rightarrow> Inl e
         | Inr idx \<Rightarrow>
             (case py_index set_content idx of
                Inl e \<Rightarrow> Inl e
              | Inr j \<Rightarrow> Inr (set_content[j := new_entry])))
      else if pol = ''F'' then
        (case set_content of
           [] \<Rightarrow> Inl IndexError
         | oldest # rest \<Rightarrow> Inr (rest @ [new_entry]))
      else if pol = ''L'' then
        (case set_content of
           [] \<Rightarrow> Inl IndexError
         | first # rest \<Rightarrow>
             Inr (set_content[lru_scan rest 1 (e_time first) 0 := new_entry]))
      else Inr set_content)"

text \<open>
  \<^verbatim>\<open>Cache.access_cache\<close> (lines 41-97). \<open>rnd\<close> is the random generator: the raw
  value it gives at the access numbered \<open>total_accesses\<close>. The sets are separate list
  objects, so a change of one set is a change of that position of \<^verbatim>\<open>self.cache\<close>.
  An exception leaves the function with no result: \<^verbatim>\<open>main\<close> exits on it.
\<close>

definition access_cache :: "(int \<Rightarrow> int) \<Rightarrow> Cache \<Rightarrow> int \<Rightarrow> py_error + Cache" where
  "access_cache rnd self0 address =
     (let self = self0\<lparr>total_accesses := total_accesses self0 + 1\<rparr>;
          (tag, index) = get_address_components self address
      in case py_index (cache self) index of
           Inl e \<Rightarrow> Inl e
         | Inr i \<Rightarrow>
             (let set_content = cache self ! i in
              case find_hit tag set_content of
                Some k \<Rightarrow>
                  Inr (self\<lparr>hits := hits self + 1,
                            cache := (cache self)
                              [i := touch (subst self) (total_accesses self) set_content k]\<rparr>)
              | None \<Rightarrow>
                  (let set_full = (int (length set_content) \<ge> assoc self);
                       cache_full =
                         (sum_list (map (\<lambda>s. int (length s)) (cache self))
                            \<ge> nsets self * assoc self);
                       self' = classify_miss self tag index set_full cache_full;
                       new_entry = (tag, True, total_accesses self')
                   in case install (subst self') (rnd (total_accesses self')) (assoc self')
                             set_full set_content new_entry of
                        Inl e \<Rightarrow> Inl e
                      | Inr set_content' \<Rightarrow>
                          Inr (self'\<lparr>cache := (cache self')[i := set_content']\<rparr>))))"

subsection \<open>A run over a trace\<close>

text \<open>
  The loop of \<^verbatim>\<open>main\<close> (lines 151-157) over the addresses of the trace file; an
  exception ends the run (lines 161-163) and no statistics are printed.
\<close>

fun run :: "(int \<Rightarrow> int) \<Rightarrow> Cache \<Rightarrow> int list \<Rightarrow> py_error + Cache" where
  "run rnd self [] = Inr self"
| "run rnd self (address # rest) =
     (case access_cache rnd self address of
        Inl e \<Rightarrow> Inl e
      | Inr self' \<Rightarrow> run rnd self' rest)"

text \<open>The parameter validation of \<^verbatim>\<open>main\<close> (lines 135-140), on the upper-cased policy.\<close>

definition valid_config :: "int \<Rightarrow> int \<Rightarrow> int \<Rightarrow> string \<Rightarrow> bool" where
  "valid_config n b a s =
     (\<not> (n \<le> 0 \<or> b \<le> 0 \<or> a \<le> 0) \<and> (s = ''R'' \<or> s = ''F'' \<or> s = ''L''))"

definition simulate ::
  "(int \<Rightarrow> int) \<Rightarrow> int \<Rightarrow> int \<Rightarrow> int \<Rightarrow> string \<Rightarrow> int list \<Rightarrow> py_error + Cache" where
  "simulate rnd n b a s trace = run rnd (Cache_init n b a s) trace"

subsection \<open>Notions the properties are stated with\<close>

text \<open>The six counters, in the order the report prints them.\<close>

definition counters :: "Cache \<Rightarrow> int \<times> int \<times> int \<times> int \<times> int \<times> int" where
  "counters self = (total_accesses self, hits self, misses self,
     compulsory_misses self, capacity_misses self, conflict_misses self)"

text \<open>A generator that always draws 0, for runs on concrete inputs.\<close>

definition zero_draws :: "int \<Rightarrow> int" where
  "zero_draws t = 0"

text \<open>What a set of a cache of associativity \<open>a\<close> has to satisfy: at most \<open>a\<close> entries, all
  of them valid, with pairwise distinct tags.\<close>

definition set_ok :: "int \<Rightarrow> entry list \<Rightarrow> bool" where
  "set_ok a xs = (int (length xs) \<le> a \<and> list_all e_valid xs \<and> distinct (map e_tag xs))"

text \<open>Every set of the cache satisfies \<open>set_ok\<close>.\<close>

definition cache_ok :: "Cache \<Rightarrow> bool" where
  "cache_ok self = list_all (set_ok (assoc self)) (cache self)"

text \<open>The configuration fields are the same in both objects, there are as many sets, and no
  set of the second is shorter than in the first.\<close>

definition same_shape :: "Cache \<Rightarrow> Cache \<Rightarrow> bool" where
  "same_shape self self' =
     (nsets self' = nsets self \<and> assoc self' = assoc self \<and> subst self' = subst self
      \<and> offset_bits self' = offset_bits self \<and> index_bits self' = index_bits self
      \<and> length (cache self') = length (cache self)
      \<and> (\<forall>i<length (cache self). length (cache self ! i) \<le> length (cache self' ! i)))"

text \<open>The two sums of the counters and their signs.\<close>

definition counters_consistent :: "Cache \<Rightarrow> bool" where
  "counters_consistent self =
     (hits self + misses self = total_accesses self
      \<and> compulsory_misses self + capacity_misses self + conflict_misses self = misses self
      \<and> 0 \<le> total_accesses self \<and> 0 \<le> hits self \<and> 0 \<le> misses self
      \<and> 0 \<le> compulsory_misses self \<and> 0 \<le> capacity_misses self
      \<and> 0 \<le> conflict_misses self)"

text \<open>No counter of the second object is below the one of the first.\<close>

definition counters_le :: "Cache \<Rightarrow> Cache \<Rightarrow> bool" where
  "counters_le self self' =
     (total_accesses self \<le> total_accesses self' \<and> hits self \<le> hits self'
      \<and> misses self \<le> misses self'
      \<and> compulsory_misses self \<le> compulsory_misses self'
      \<and> capacity_misses self \<le> capacity_misses self'
      \<and> conflict_misses self \<le> conflict_misses self')"

text \<open>The set an address maps to (line 45), empty where the subscript raises.\<close>

definition target_set :: "Cache \<Rightarrow> int \<Rightarrow> entry list" where
  "target_set self address =
     (case py_index (cache self) (snd (get_address_components self address)) of
        Inl e \<Rightarrow> []
      | Inr i \<Rightarrow> cache self ! i)"

text \<open>The test of the hit loop (lines 48-49) on the set the address maps to.\<close>

definition is_hit :: "Cache \<Rightarrow> int \<Rightarrow> bool" where
  "is_hit self address =
     (find_hit (fst (get_address_components self address)) (target_set self address) \<noteq> None)"

text \<open>\<^verbatim>\<open>set_full\<close> (line 64) for the set the address maps to.\<close>

definition set_full :: "Cache \<Rightarrow> int \<Rightarrow> bool" where
  "set_full self address = (int (length (target_set self address)) \<ge> assoc self)"

text \<open>\<^verbatim>\<open>cache_full\<close> (line 65).\<close>

definition cache_full :: "Cache \<Rightarrow> bool" where
  "cache_full self =
     (sum_list (map (\<lambda>s. int (length s)) (cache self)) \<ge> nsets self * assoc self)"

text \<open>The three kinds of misses.\<close>

datatype miss_kind = Compulsory | Capacity | Conflict

text \<open>The classifier as the specification words it (section 4.2): the four rules in their
  priority order.\<close>

definition classify_spec :: "bool \<Rightarrow> bool \<Rightarrow> bool \<Rightarrow> miss_kind" where
  "classify_spec never_recorded target_full whole_full =
     (if never_recorded then Compulsory
      else if target_full \<and> whole_full then Capacity
      else if target_full then Conflict
      else Compulsory)"

text \<open>Incrementing the sub-counter of a kind, on the triple (compulsory, capacity, conflict).\<close>

fun count_miss :: "miss_kind \<Rightarrow> int \<times> int \<times> int \<Rightarrow> int \<times> int \<times> int" where
  "count_miss Compulsory (c, p, f) = (c + 1, p, f)"
| "count_miss Capacity (c, p, f) = (c, p + 1, f)"
| "count_miss Conflict (c, p, f) = (c, p, f + 1)"

text \<open>The three miss sub-counters of an object.\<close>

definition miss_counters :: "Cache \<Rightarrow> int \<times> int \<times> int" where
  "miss_counters self = (compulsory_misses self, capacity_misses self, conflict_misses self)"

text \<open>Every tag stored in set \<open>i\<close> was recorded with index \<open>i\<close>.\<close>

definition resident_seen :: "entry list list \<Rightarrow> (int \<times> int) set \<Rightarrow> bool" where
  "resident_seen cs seen =
     (\<forall>i<length cs. \<forall>e\<in>set (cs ! i). (e_tag e, int i) \<in> seen)"

text \<open>A recorded pair names a set of the cache, and as long as that set is not full the
  pair's tag is still stored there.\<close>

definition seen_resident :: "int \<Rightarrow> entry list list \<Rightarrow> (int \<times> int) set \<Rightarrow> bool" where
  "seen_resident a cs seen =
     (\<forall>(t, ix)\<in>seen. 0 \<le> ix \<and> nat ix < length cs
        \<and> (int (length (cs ! nat ix)) < a \<longrightarrow> t \<in> e_tag ` set (cs ! nat ix)))"

text \<open>What links \<^verbatim>\<open>seen_tags\<close>, the sets and \<^verbatim>\<open>compulsory_misses\<close> in every
  reachable object.\<close>

definition seen_inv :: "Cache \<Rightarrow> bool" where
  "seen_inv self =
     (finite (seen_tags self)
      \<and> compulsory_misses self = int (card (seen_tags self))
      \<and> resident_seen (cache self) (seen_tags self)
      \<and> seen_resident (assoc self) (cache self) (seen_tags self))"

text \<open>The condition under which an access of \<open>address\<close> from \<open>self\<close> reaches line 75:
  the subscript is in range, the access misses, the pair is already recorded, and the
  set is not full.\<close>

definition defensive_branch :: "Cache \<Rightarrow> int \<Rightarrow> bool" where
  "defensive_branch self address =
     (case py_index (cache self) (snd (get_address_components self address)) of
        Inl e \<Rightarrow> False
      | Inr i \<Rightarrow>
          find_hit (fst (get_address_components self address)) (cache self ! i) = None
          \<and> get_address_components self address \<in> seen_tags self
          \<and> \<not> (int (length (cache self ! i)) \<ge> assoc self))"

text \<open>The invariant of a run from \<open>self0\<close> that has processed the addresses
  \<open>past\<close>.\<close>

definition run_inv :: "Cache \<Rightarrow> int list \<Rightarrow> Cache \<Rightarrow> bool" where
  "run_inv self0 past self =
     (cache_ok self \<and> seen_inv self \<and> same_shape self0 self
      \<and> seen_tags self = get_address_components self0 ` set past)"

text \<open>The tags the addresses of a trace map to one index.\<close>

definition working_set :: "Cache \<Rightarrow> int list \<Rightarrow> int \<Rightarrow> int set" where
  "working_set self0 trace index =
     {tag. (tag, index) \<in> get_address_components self0 ` set trace}"

text \<open>How a set under \<open>'F'\<close> and the same set under \<open>'L'\<close> correspond after the same
  accesses: the tags of the FIFO list, front to back, are the tags of the LRU entries in
  increasing order of their order keys, which are pairwise distinct and at most \<open>now\<close>.\<close>

definition recency_rel :: "int \<Rightarrow> entry list \<Rightarrow> entry list \<Rightarrow> bool" where
  "recency_rel now xsF xsL =
     (\<exists>ys. mset ys = mset xsL
        \<and> sorted (map e_time ys) \<and> distinct (map e_time ys) \<and> distinct (map e_tag ys)
        \<and> list_all (\<lambda>e. e_valid e \<and> e_time e \<le> now) ys
        \<and> map e_tag ys = map e_tag xsF \<and> list_all e_valid xsF)"

text \<open>The correspondence of a whole object under \<open>'F'\<close> with one under \<open>'L'\<close>: the same
  configuration, counters and recorded pairs, and sets related by \<open>recency_rel\<close>.\<close>

definition fifo_lru_rel :: "Cache \<Rightarrow> Cache \<Rightarrow> bool" where
  "fifo_lru_rel selfF selfL =
     (subst selfF = ''F'' \<and> subst selfL = ''L''
      \<and> nsets selfF = nsets selfL \<and> assoc selfF = assoc selfL
      \<and> offset_bits selfF = offset_bits selfL \<and> index_bits selfF = index_bits selfL
      \<and> counters selfF = counters selfL \<and> seen_tags selfF = seen_tags selfL
      \<and> length (cache selfF) = length (cache selfL)
      \<and> (\<forall>i<length (cache selfF).
            recency_rel (total_accesses selfL) (cache selfF ! i) (cache selfL ! i)))"

section \<open>Address decoding\<close>

lemma bit_length_nat_le: "bit_length_nat n \<le> k \<longleftrightarrow> n < 2 ^ k"
proof (induction n arbitrary: k rule: bit_length_nat.induct)
  case (1 n)
  show ?case
  proof (cases "n = 0")
    case True
    then show ?thesis by (simp add: bit_length_nat.simps)
  next
    case False
    show ?thesis
    proof (cases k)
      case 0
      with False show ?thesis by (simp add: bit_length_nat.simps [of n])
    next
      case (Suc k')
      have "bit_length_nat n \<le> k \<longleftrightarrow> bit_length_nat (n div 2) \<le> k'"
        using False Suc by (simp add: bit_length_nat.simps [of n])
      also have "\<dots> \<longleftrightarrow> n div 2 < 2 ^ k'"
        using "1.IH" [OF False] .
      also have "\<dots> \<longleftrightarrow> n < 2 ^ k"
        using Suc by auto
      finally show ?thesis .
    qed
  qed
qed

lemma log2_le: "0 < x \<Longrightarrow> log2 x \<le> k \<longleftrightarrow> x \<le> 2 ^ k"
proof -
  assume "0 < x"
  then have "nat \<bar>x - 1\<bar> < 2 ^ k \<longleftrightarrow> x \<le> 2 ^ k"
    by (simp add: nat_less_iff) linarith
  then show ?thesis
    by (simp add: log2_def bit_length_def bit_length_nat_le)
qed

lemma log2_ceillog2: "0 < x \<Longrightarrow> log2 x = ceillog2 (nat x)"
proof (rule antisym)
  assume x: "0 < x"
  have a: "nat x \<le> 2 ^ k \<longleftrightarrow> x \<le> 2 ^ k" for k
    using x by (simp add: nat_le_iff)
  have "x \<le> 2 ^ ceillog2 (nat x)"
    using le_two_power_ceillog2 [of "nat x"] a by blast
  then show "log2 x \<le> ceillog2 (nat x)"
    using log2_le [OF x] by blast
  have "x \<le> 2 ^ log2 x" using log2_le [OF x, of "log2 x"] by simp
  then have "nat x \<le> 2 ^ log2 x" using a by blast
  moreover have "0 < nat x" using x by simp
  ultimately show "ceillog2 (nat x) \<le> log2 x"
    using ceillog2_le_iff by blast
qed

lemma log2_ceiling: "0 < x \<Longrightarrow> int (log2 x) = \<lceil>log 2 (real_of_int x)\<rceil>"
proof -
  assume x: "0 < x"
  have "0 \<le> log 2 (real_of_int x)" using x by simp
  then have "0 \<le> \<lceil>log 2 (real_of_int x)\<rceil>" by linarith
  moreover have "real (nat x) = real_of_int x" using x by simp
  moreover have "nat x \<noteq> 0" using x by simp
  ultimately show ?thesis
    unfolding log2_ceillog2 [OF x] ceillog2_def by simp
qed

lemma and_index_mask: "(k::int) AND (push_bit n 1 - 1) = k mod 2 ^ n"
proof -
  have "push_bit n (1::int) - 1 = mask n"
    by (simp add: mask_eq_exp_minus_1 push_bit_eq_mult)
  then show ?thesis
    by (simp only: take_bit_eq_mask [symmetric] take_bit_eq_mod)
qed

lemma log2_16: "log2 16 = 4"
  by code_simp

lemma log2_4: "log2 4 = 2"
  by code_simp

text \<open>
  C7. For positive \<open>num_sets\<close> and \<open>block_size\<close> and every address, the decoder of a
  freshly built cache returns \<open>tag = address >> (offset_bits + index_bits)\<close> and
  \<open>index = (address >> offset_bits) & ((1 << index_bits) - 1)\<close>, that is the quotient
  and the remainder of the divisions by the powers of two; the two widths are the bit
  lengths of \<open>block_size - 1\<close> and \<open>num_sets - 1\<close>, which are the ceilings of the
  base-2 logarithms, and the width for 1 is 0. The decoder is a function of the two
  widths and the address alone.
\<close>

theorem address_decoding:
  assumes "0 < n" and "0 < b"
  shows "log2 b = bit_length (b - 1) \<and> log2 n = bit_length (n - 1) \<and> log2 1 = 0
    \<and> offset_bits (Cache_init n b a s) = log2 b
    \<and> index_bits (Cache_init n b a s) = log2 n
    \<and> int (log2 b) = \<lceil>log 2 (real_of_int b)\<rceil>
    \<and> int (log2 n) = \<lceil>log 2 (real_of_int n)\<rceil>
    \<and> get_address_components (Cache_init n b a s) address =
        (drop_bit (log2 b + log2 n) address,
         drop_bit (log2 b) address AND (push_bit (log2 n) 1 - 1))
    \<and> get_address_components (Cache_init n b a s) address =
        (address div 2 ^ (log2 b + log2 n), (address div 2 ^ log2 b) mod 2 ^ log2 n)"
proof -
  have "log2 1 = 0"
    by (simp add: log2_def bit_length_def bit_length_nat.simps)
  moreover have "get_address_components (Cache_init n b a s) address =
        (drop_bit (log2 b + log2 n) address,
         drop_bit (log2 b) address AND (push_bit (log2 n) 1 - 1))"
    by (simp add: get_address_components_def Cache_init_def)
  moreover have "get_address_components (Cache_init n b a s) address =
        (address div 2 ^ (log2 b + log2 n), (address div 2 ^ log2 b) mod 2 ^ log2 n)"
    unfolding get_address_components_def
    by (simp add: Cache_init_def and_index_mask drop_bit_eq_div del: push_bit_of_1)
  moreover have "offset_bits (Cache_init n b a s) = log2 b"
    "index_bits (Cache_init n b a s) = log2 n"
    by (simp_all add: Cache_init_def)
  moreover have "log2 b = bit_length (b - 1)" "log2 n = bit_length (n - 1)"
    by (simp_all add: log2_def)
  moreover note log2_ceiling [OF assms(1)] log2_ceiling [OF assms(2)]
  ultimately show ?thesis by blast
qed

theorem address_decoding_witness:
  "(0::int) < 4 \<and> (0::int) < 16 \<and> log2 16 = 4 \<and> log2 4 = 2
   \<and> \<lceil>log 2 (real_of_int 16)\<rceil> = 4
   \<and> get_address_components (Cache_init 4 16 2 ''L'') 305419896 = (4772185, 3)"
proof -
  have h: "(0::int) < 4" "(0::int) < 16" by simp_all
  note t = address_decoding [OF h, of 2 "''L''" 305419896]
  have "get_address_components (Cache_init 4 16 2 ''L'') 305419896 = (4772185, 3)"
    using t by (simp add: log2_16 log2_4)
  moreover have "\<lceil>log 2 (real_of_int 16)\<rceil> = 4"
    using t log2_16 by linarith
  ultimately show ?thesis using h by (simp add: log2_16 log2_4)
qed

section \<open>Runs on concrete traces\<close>

lemma upper_L: "upper ''L'' = ''L''"
  by code_simp

lemma upper_F: "upper ''F'' = ''F''"
  by code_simp

lemma upper_R: "upper ''R'' = ''R''"
  by code_simp

lemmas eval_defs = simulate_def Cache_init_def access_cache_def get_address_components_def
  py_index_def touch_def classify_miss_def install_def e_tag_def e_valid_def e_time_def
  log2_def bit_length_def bit_length_nat.simps counters_def randint_def zero_draws_def
  Let_def eval_nat_numeral target_set_def is_hit_def set_full_def cache_full_def
  miss_counters_def classify_spec_def set_ok_def counters_consistent_def counters_le_def

text \<open>
  C4 (as the code behaves). With \<open>num_sets = 1\<close>, \<open>block_size = 1\<close>,
  \<open>associativity = 2\<close> and policy LRU, the trace \<open>[0, 1, 0, 2]\<close> gives: access 1 a
  compulsory miss, access 2 a compulsory miss, access 3 a hit, and access 4 a miss that is
  again compulsory, since tag 2 was never recorded before and that test comes first. The
  final counters are total 4, hits 1, misses 3, compulsory 3, capacity 0, conflict 0.
\<close>

theorem example_run_counters:
  "map_sum id counters (simulate rnd 1 1 2 ''L'' [0]) = Inr (1, 0, 1, 1, 0, 0)
   \<and> map_sum id counters (simulate rnd 1 1 2 ''L'' [0, 1]) = Inr (2, 0, 2, 2, 0, 0)
   \<and> map_sum id counters (simulate rnd 1 1 2 ''L'' [0, 1, 0]) = Inr (3, 1, 2, 2, 0, 0)
   \<and> map_sum id counters (simulate rnd 1 1 2 ''L'' [0, 1, 0, 2]) = Inr (4, 1, 3, 3, 0, 0)"
  by (simp add: eval_defs upper_L)

text \<open>
  The counters the specification's example gives for that run, compulsory 2 and
  capacity 1, are not the ones the code computes.
\<close>

theorem example_run_counterexample:
  "map_sum id counters (simulate zero_draws 1 1 2 ''L'' [0, 1, 0, 2]) = Inr (4, 1, 3, 3, 0, 0)
   \<and> map_sum id counters (simulate zero_draws 1 1 2 ''L'' [0, 1, 0, 2])
       \<noteq> Inr (4, 1, 3, 2, 1, 0)"
  by (simp add: eval_defs upper_L)

section \<open>One access, case by case\<close>

lemma decode_index_nonneg: "0 \<le> snd (get_address_components self address)"
  unfolding get_address_components_def Let_def
  by (simp add: and_index_mask del: push_bit_of_1)

lemma decode_total_accesses [simp]:
  "get_address_components (self\<lparr>total_accesses := t\<rparr>) address =
   get_address_components self address"
  by (simp add: get_address_components_def)

lemma py_index_Inr:
  "0 \<le> i \<Longrightarrow> py_index xs i = Inr j \<longleftrightarrow> (j = nat i \<and> nat i < length xs)"
  by (auto simp: py_index_def Let_def)

lemma py_index_Inl:
  "0 \<le> i \<Longrightarrow> py_index xs i = Inl e \<longleftrightarrow> (e = IndexError \<and> length xs \<le> nat i)"
  by (auto simp: py_index_def Let_def)

lemma find_hit_Some:
  "find_hit tag xs = Some k \<Longrightarrow>
   k < length xs \<and> e_tag (xs ! k) = tag \<and> e_valid (xs ! k)
   \<and> (\<forall>j<k. \<not> (e_tag (xs ! j) = tag \<and> e_valid (xs ! j)))"
proof (induction xs arbitrary: k)
  case Nil
  then show ?case by simp
next
  case (Cons e xs)
  show ?case
  proof (cases "e_tag e = tag \<and> e_valid e")
    case True
    with Cons.prems show ?thesis by simp
  next
    case False
    with Cons.prems obtain k' where k': "find_hit tag xs = Some k'" "k = Suc k'"
      by auto
    from Cons.IH [OF k'(1)] False k'(2) show ?thesis
      by (auto simp: less_Suc_eq_0_disj)
  qed
qed

lemma find_hit_None:
  "find_hit tag xs = None \<longleftrightarrow> (\<forall>e\<in>set xs. \<not> (e_tag e = tag \<and> e_valid e))"
  by (induction xs) auto

lemma classify_miss_fields [simp]:
  "cache (classify_miss self tag index sf cf) = cache self"
  "total_accesses (classify_miss self tag index sf cf) = total_accesses self"
  "hits (classify_miss self tag index sf cf) = hits self"
  "misses (classify_miss self tag index sf cf) = misses self + 1"
  "seen_tags (classify_miss self tag index sf cf) = insert (tag, index) (seen_tags self)"
  "nsets (classify_miss self tag index sf cf) = nsets self"
  "assoc (classify_miss self tag index sf cf) = assoc self"
  "subst (classify_miss self tag index sf cf) = subst self"
  "offset_bits (classify_miss self tag index sf cf) = offset_bits self"
  "index_bits (classify_miss self tag index sf cf) = index_bits self"
  by (simp_all add: classify_miss_def Let_def)

lemma access_cache_cases [consumes 1, case_names hit miss]:
  assumes "access_cache rnd self address = Inr self'"
  obtains (hit) tag index i k where
      "get_address_components self address = (tag, index)"
      "0 \<le> index" "i = nat index" "i < length (cache self)"
      "find_hit tag (cache self ! i) = Some k"
      "self' = self\<lparr>total_accesses := total_accesses self + 1, hits := hits self + 1,
         cache := (cache self)
           [i := touch (subst self) (total_accesses self + 1) (cache self ! i) k]\<rparr>"
  | (miss) tag index i set' where
      "get_address_components self address = (tag, index)"
      "0 \<le> index" "i = nat index" "i < length (cache self)"
      "find_hit tag (cache self ! i) = None"
      "install (subst self) (rnd (total_accesses self + 1)) (assoc self)
         (assoc self \<le> int (length (cache self ! i))) (cache self ! i)
         (tag, True, total_accesses self + 1) = Inr set'"
      "self' = (classify_miss (self\<lparr>total_accesses := total_accesses self + 1\<rparr>) tag index
         (assoc self \<le> int (length (cache self ! i)))
         (nsets self * assoc self \<le> sum_list (map (\<lambda>s. int (length s)) (cache self))))
         \<lparr>cache := (cache self)[i := set']\<rparr>"
proof -
  obtain tag index where d: "get_address_components self address = (tag, index)"
    by (cases "get_address_components self address")
  have nn: "0 \<le> index"
    using decode_index_nonneg [of self address] d by simp
  from assms d obtain i where i: "py_index (cache self) index = Inr i"
    by (auto simp: access_cache_def Let_def split: sum.splits)
  with nn have i': "i = nat index" "i < length (cache self)"
    by (simp_all add: py_index_Inr)
  show thesis
  proof (cases "find_hit tag (cache self ! i)")
    case (Some k)
    with assms d i have "self' = self\<lparr>total_accesses := total_accesses self + 1,
        hits := hits self + 1,
        cache := (cache self)
           [i := touch (subst self) (total_accesses self + 1) (cache self ! i) k]\<rparr>"
      by (simp add: access_cache_def Let_def)
    with d nn i' Some show thesis by (rule hit)
  next
    case None
    with assms d i obtain set' where
      "install (subst self) (rnd (total_accesses self + 1)) (assoc self)
         (assoc self \<le> int (length (cache self ! i))) (cache self ! i)
         (tag, True, total_accesses self + 1) = Inr set'"
      "self' = (classify_miss (self\<lparr>total_accesses := total_accesses self + 1\<rparr>) tag index
         (assoc self \<le> int (length (cache self ! i)))
         (nsets self * assoc self \<le> sum_list (map (\<lambda>s. int (length s)) (cache self))))
         \<lparr>cache := (cache self)[i := set']\<rparr>"
      by (auto simp: access_cache_def Let_def split: sum.splits)
    with d nn i' None show thesis by (rule miss)
  qed
qed

lemma run_append:
  "run rnd self (xs @ ys) =
   (case run rnd self xs of Inl e \<Rightarrow> Inl e | Inr self' \<Rightarrow> run rnd self' ys)"
  by (induction xs arbitrary: self) (auto split: sum.splits)

lemma run_invariant:
  assumes "run rnd self0 trace = Inr self'"
    and "P [] self0"
    and "\<And>past self address self1. P past self \<Longrightarrow> access_cache rnd self address = Inr self1
           \<Longrightarrow> P (past @ [address]) self1"
  shows "P trace self'"
  using assms(1)
proof (induction trace arbitrary: self' rule: rev_induct)
  case Nil
  with assms(2) show ?case by simp
next
  case (snoc a as)
  from snoc.prems obtain s1 where s1: "run rnd self0 as = Inr s1"
    "access_cache rnd s1 a = Inr self'"
    by (auto simp: run_append split: sum.splits)
  from snoc.IH [OF s1(1)] s1(2) show ?case by (rule assms(3))
qed

lemma lru_scan_spec:
  assumes "li < length pre" and "mt = e_time (pre ! li)"
    and "\<forall>j<length pre. mt \<le> e_time (pre ! j)"
    and "\<forall>j<li. mt < e_time (pre ! j)"
    and "i = length pre"
  shows "lru_scan rest i mt li < length (pre @ rest)
    \<and> (\<forall>j<length (pre @ rest).
          e_time ((pre @ rest) ! lru_scan rest i mt li) \<le> e_time ((pre @ rest) ! j))
    \<and> (\<forall>j<lru_scan rest i mt li.
          e_time ((pre @ rest) ! lru_scan rest i mt li) < e_time ((pre @ rest) ! j))"
  using assms
proof (induction rest arbitrary: pre li mt i)
  case Nil
  then show ?case by simp
next
  case (Cons e rest)
  have app: "(pre @ [e]) @ rest = pre @ e # rest" by simp
  show ?case
  proof (cases "e_time e < mt")
    case True
    have "lru_scan rest (Suc i) (e_time e) i < length ((pre @ [e]) @ rest)
      \<and> (\<forall>j<length ((pre @ [e]) @ rest).
          e_time (((pre @ [e]) @ rest) ! lru_scan rest (Suc i) (e_time e) i)
            \<le> e_time (((pre @ [e]) @ rest) ! j))
      \<and> (\<forall>j<lru_scan rest (Suc i) (e_time e) i.
          e_time (((pre @ [e]) @ rest) ! lru_scan rest (Suc i) (e_time e) i)
            < e_time (((pre @ [e]) @ rest) ! j))"
    proof (rule Cons.IH)
      show "i < length (pre @ [e])" using Cons.prems(5) by simp
      show "e_time e = e_time ((pre @ [e]) ! i)" using Cons.prems(5) by simp
      show "\<forall>j<length (pre @ [e]). e_time e \<le> e_time ((pre @ [e]) ! j)"
        using Cons.prems(3) True by (auto simp: nth_append less_Suc_eq)
      show "\<forall>j<i. e_time e < e_time ((pre @ [e]) ! j)"
        using Cons.prems(3,5) True by (auto simp: nth_append)
      show "Suc i = length (pre @ [e])" using Cons.prems(5) by simp
    qed
    with True show ?thesis unfolding app by simp
  next
    case False
    have "lru_scan rest (Suc i) mt li < length ((pre @ [e]) @ rest)
      \<and> (\<forall>j<length ((pre @ [e]) @ rest).
          e_time (((pre @ [e]) @ rest) ! lru_scan rest (Suc i) mt li)
            \<le> e_time (((pre @ [e]) @ rest) ! j))
      \<and> (\<forall>j<lru_scan rest (Suc i) mt li.
          e_time (((pre @ [e]) @ rest) ! lru_scan rest (Suc i) mt li)
            < e_time (((pre @ [e]) @ rest) ! j))"
    proof (rule Cons.IH)
      show "li < length (pre @ [e])" using Cons.prems(1) by simp
      show "mt = e_time ((pre @ [e]) ! li)" using Cons.prems(1,2) by (simp add: nth_append)
      show "\<forall>j<length (pre @ [e]). mt \<le> e_time ((pre @ [e]) ! j)"
        using Cons.prems(3) False by (auto simp: nth_append less_Suc_eq)
      show "\<forall>j<li. mt < e_time ((pre @ [e]) ! j)"
        using Cons.prems(1,4) by (auto simp: nth_append)
      show "Suc i = length (pre @ [e])" using Cons.prems(5) by simp
    qed
    with False show ?thesis unfolding app by simp
  qed
qed

lemma lru_victim:
  "lru_scan rest 1 (e_time first) 0 < length (first # rest)
   \<and> (\<forall>j<length (first # rest).
         e_time ((first # rest) ! lru_scan rest 1 (e_time first) 0)
           \<le> e_time ((first # rest) ! j))
   \<and> (\<forall>j<lru_scan rest 1 (e_time first) 0.
         e_time ((first # rest) ! lru_scan rest 1 (e_time first) 0)
           < e_time ((first # rest) ! j))"
  using lru_scan_spec [of 0 "[first]" "e_time first" 1 rest] by simp

lemma install_cases [consumes 1, case_names append replace fifo keep]:
  assumes "install pol draw a full xs new = Inr set'"
  obtains (append) "\<not> full" "set' = xs @ [new]"
  | (replace) j where "full" "pol = ''R'' \<or> pol = ''L''" "j < length xs" "set' = xs[j := new]"
  | (fifo) oldest rest where "full" "pol = ''F''" "xs = oldest # rest" "set' = rest @ [new]"
  | (keep) "full" "pol \<noteq> ''R''" "pol \<noteq> ''F''" "pol \<noteq> ''L''" "set' = xs"
proof (cases full)
  case False
  with assms have "set' = xs @ [new]" by (simp add: install_def)
  with False show thesis by (rule append)
next
  case True
  consider "pol = ''R''" | "pol = ''F''" | "pol = ''L''"
    | "pol \<noteq> ''R''" "pol \<noteq> ''F''" "pol \<noteq> ''L''"
    by blast
  then show thesis
  proof cases
    case 1
    with assms True obtain idx j where "randint draw 0 (a - 1) = Inr idx"
      "py_index xs idx = Inr j" "set' = xs[j := new]"
      by (auto simp: install_def split: sum.splits)
    moreover from this have "0 \<le> idx"
      by (auto simp: randint_def split: if_splits)
    ultimately have "j < length xs" "set' = xs[j := new]"
      by (simp_all add: py_index_Inr)
    with True 1 show thesis using replace by blast
  next
    case 2
    with assms True obtain oldest rest where "xs = oldest # rest" "set' = rest @ [new]"
      by (auto simp: install_def split: list.splits)
    with True 2 show thesis using fifo by blast
  next
    case 3
    with assms True obtain first rest where x: "xs = first # rest"
      "set' = xs[lru_scan rest 1 (e_time first) 0 := new]"
      by (auto simp: install_def split: list.splits)
    with lru_victim [of rest first] have "lru_scan rest 1 (e_time first) 0 < length xs"
      by simp
    with True 3 x(2) show thesis using replace by blast
  next
    case 4
    with assms True have "set' = xs" by (simp add: install_def)
    with True 4 show thesis using keep by blast
  qed
qed

lemma touch_length: "k < length xs \<Longrightarrow> length (touch pol now xs k) = length xs"
  by (auto simp: touch_def Let_def length_remove1)

lemma touch_L: "touch ''L'' now xs k = xs[k := (e_tag (xs ! k), e_valid (xs ! k), now)]"
  by (simp add: touch_def Let_def)

lemma touch_F: "touch ''F'' now xs k = remove1 (xs ! k) xs @ [xs ! k]"
  by (simp add: touch_def Let_def)

lemma touch_other: "pol \<noteq> ''L'' \<Longrightarrow> pol \<noteq> ''F'' \<Longrightarrow> touch pol now xs k = xs"
  by (simp add: touch_def Let_def)

lemma touch_tags:
  assumes k: "k < length xs"
  shows "mset (map e_tag (touch pol now xs k)) = mset (map e_tag xs)"
proof -
  consider "pol = ''L''" | "pol = ''F''" | "pol \<noteq> ''L''" "pol \<noteq> ''F''"
    by blast
  then show ?thesis
  proof cases
    case 1
    have "map e_tag (xs[k := (e_tag (xs ! k), e_valid (xs ! k), now)]) = map e_tag xs"
      by (simp add: map_update e_tag_def list_update_same_conv k)
    with 1 show ?thesis by (simp only: touch_L)
  next
    case 2
    have "mset (remove1 (xs ! k) xs @ [xs ! k]) = mset xs"
      using k by simp
    then have "mset (map e_tag (remove1 (xs ! k) xs @ [xs ! k])) = mset (map e_tag xs)"
      by (metis mset_map)
    with 2 show ?thesis by (simp only: touch_F)
  next
    case 3
    then show ?thesis by (simp add: touch_other)
  qed
qed

lemma touch_valid:
  assumes k: "k < length xs" and v: "list_all e_valid xs"
  shows "list_all e_valid (touch pol now xs k)"
proof -
  have vk: "e_valid (xs ! k)" using k v by (simp add: list_all_length)
  consider "pol = ''L''" | "pol = ''F''" | "pol \<noteq> ''L''" "pol \<noteq> ''F''"
    by blast
  then show ?thesis
  proof cases
    case 1
    have "e_valid (e_tag (xs ! k), e_valid (xs ! k), now)"
      using vk by (simp add: e_valid_def)
    moreover have "set (xs[k := (e_tag (xs ! k), e_valid (xs ! k), now)])
        \<subseteq> insert (e_tag (xs ! k), e_valid (xs ! k), now) (set xs)"
      by (rule set_update_subset_insert)
    ultimately have "list_all e_valid (xs[k := (e_tag (xs ! k), e_valid (xs ! k), now)])"
      using v unfolding list_all_iff by blast
    with 1 show ?thesis by (simp only: touch_L)
  next
    case 2
    have "set (remove1 (xs ! k) xs @ [xs ! k]) \<subseteq> set xs"
      using k set_remove1_subset [of "xs ! k" xs] by auto
    then have "list_all e_valid (remove1 (xs ! k) xs @ [xs ! k])"
      using v unfolding list_all_iff by blast
    with 2 show ?thesis by (simp only: touch_F)
  next
    case 3
    with v show ?thesis by (simp add: touch_other)
  qed
qed

section \<open>Invariants of the sets and of the counters\<close>

lemma set_ok_touch:
  assumes "k < length xs" and "set_ok a xs"
  shows "set_ok a (touch pol now xs k)"
proof -
  have "distinct (map e_tag (touch pol now xs k))"
    using mset_eq_imp_distinct_iff [OF touch_tags [OF assms(1), of pol now]] assms(2)
    by (simp add: set_ok_def)
  with assms show ?thesis
    by (simp add: set_ok_def touch_length touch_valid)
qed

lemma miss_tag_fresh:
  assumes "find_hit tag xs = None" and "list_all e_valid xs"
  shows "tag \<notin> set (map e_tag xs)"
  using assms by (auto simp: find_hit_None list_all_iff)

lemma set_ok_install:
  assumes ok: "set_ok a xs" and miss: "find_hit tag xs = None"
    and inst: "install pol draw a (a \<le> int (length xs)) xs (tag, True, now) = Inr set'"
  shows "set_ok a set' \<and> length xs \<le> length set'
    \<and> set (map e_tag set') \<subseteq> insert tag (set (map e_tag xs))
    \<and> (a \<le> int (length xs) \<longrightarrow> length set' = length xs)
    \<and> (\<not> a \<le> int (length xs) \<longrightarrow> set' = xs @ [(tag, True, now)])"
proof -
  have fresh: "tag \<notin> set (map e_tag xs)"
    using miss_tag_fresh [OF miss] ok unfolding set_ok_def by blast
  have v: "e_valid (tag, True, now)" and t: "e_tag (tag, True, now) = tag"
    by (simp_all add: e_valid_def e_tag_def)
  from inst show ?thesis
  proof (cases rule: install_cases)
    case append
    with ok fresh v t show ?thesis by (auto simp: set_ok_def)
  next
    case (replace j)
    have "map e_tag set' = (map e_tag xs)[j := tag]"
      using replace t by (simp add: map_update)
    moreover have "distinct ((map e_tag xs)[j := tag])"
      using ok fresh by (intro distinct_list_update) (auto simp: set_ok_def)
    moreover have "set ((map e_tag xs)[j := tag]) \<subseteq> insert tag (set (map e_tag xs))"
      by (rule set_update_subset_insert)
    moreover have "set set' \<subseteq> insert (tag, True, now) (set xs)"
      unfolding replace by (rule set_update_subset_insert)
    then have "list_all e_valid set'"
      using ok v unfolding set_ok_def list_all_iff by blast
    ultimately show ?thesis
      using ok replace unfolding set_ok_def by simp
  next
    case (fifo oldest rest)
    with ok fresh v t show ?thesis by (auto simp: set_ok_def)
  next
    case keep
    with ok show ?thesis by auto
  qed
qed

lemma same_shape_refl: "same_shape self self"
  by (simp add: same_shape_def)

lemma same_shape_trans: "same_shape s1 s2 \<Longrightarrow> same_shape s2 s3 \<Longrightarrow> same_shape s1 s3"
  unfolding same_shape_def by (auto intro: order_trans)

lemma same_shape_decode:
  "same_shape self self' \<Longrightarrow> get_address_components self' = get_address_components self"
  by (auto simp: same_shape_def get_address_components_def fun_eq_iff)

lemma access_cache_ok:
  assumes acc: "access_cache rnd self address = Inr self'" and ok: "cache_ok self"
  shows "cache_ok self' \<and> same_shape self self'"
  using acc
proof (cases rule: access_cache_cases)
  case (hit tag index i k)
  from ok hit(4) have s: "set_ok (assoc self) (cache self ! i)"
    by (simp add: cache_ok_def list_all_length)
  from hit(5) have k: "k < length (cache self ! i)"
    by (simp add: find_hit_Some)
  let ?new = "touch (subst self) (total_accesses self + 1) (cache self ! i) k"
  have n: "set_ok (assoc self) ?new" using k s by (rule set_ok_touch)
  have l: "length ?new = length (cache self ! i)" using k by (rule touch_length)
  have "cache_ok self'"
    using ok n hit(4) unfolding hit(6) cache_ok_def list_all_length
    by (simp add: nth_list_update)
  moreover have "same_shape self self'"
    using l hit(4) unfolding hit(6) same_shape_def by (auto simp: nth_list_update)
  ultimately show ?thesis ..
next
  case (miss tag index i set')
  from ok miss(4) have s: "set_ok (assoc self) (cache self ! i)"
    by (simp add: cache_ok_def list_all_length)
  note n = set_ok_install [OF s miss(5) miss(6)]
  have "cache_ok self'"
    using ok n miss(4) unfolding miss(7) cache_ok_def list_all_length
    by (simp add: nth_list_update)
  moreover have "same_shape self self'"
    using n miss(4) unfolding miss(7) same_shape_def by (auto simp: nth_list_update)
  ultimately show ?thesis ..
qed

lemma run_step_induct:
  assumes "run rnd self xs = Inr self'" and "Q self"
    and "\<And>s a s1. Q s \<Longrightarrow> access_cache rnd s a = Inr s1 \<Longrightarrow> Q s1 \<and> R s s1"
    and "\<And>s. R s s" and "\<And>s1 s2 s3. R s1 s2 \<Longrightarrow> R s2 s3 \<Longrightarrow> R s1 s3"
  shows "Q self' \<and> R self self'"
  using assms(1,2)
proof (induction xs arbitrary: self)
  case Nil
  with assms(4) show ?case by simp
next
  case (Cons a xs)
  from Cons.prems(1) obtain s1 where s1: "access_cache rnd self a = Inr s1"
    "run rnd s1 xs = Inr self'"
    by (auto split: sum.splits)
  from assms(3) [OF Cons.prems(2) s1(1)] have "Q s1" "R self s1" by simp_all
  with Cons.IH [OF s1(2)] assms(5) show ?case by blast
qed

lemma run_ok:
  assumes "run rnd self xs = Inr self'" and "cache_ok self"
  shows "cache_ok self' \<and> same_shape self self'"
  using assms(1,2)
proof (rule run_step_induct)
  show "cache_ok s1 \<and> same_shape s s1" if "cache_ok s" "access_cache rnd s a = Inr s1" for s a s1
    using that(2,1) by (rule access_cache_ok)
qed (auto intro: same_shape_refl same_shape_trans)

lemma Cache_init_ok: "0 \<le> a \<Longrightarrow> cache_ok (Cache_init n b a s)"
  by (simp add: cache_ok_def Cache_init_def set_ok_def list_all_length)

lemma classify_miss_counters:
  "miss_counters (classify_miss self tag index sf cf) =
   count_miss (classify_spec ((tag, index) \<notin> seen_tags self) sf cf) (miss_counters self)"
  by (simp add: classify_miss_def classify_spec_def miss_counters_def Let_def)

lemma target_set_eq:
  assumes "get_address_components self address = (tag, index)" "0 \<le> index"
    "nat index < length (cache self)"
  shows "target_set self address = cache self ! nat index"
proof -
  have "py_index (cache self) index = Inr (nat index)"
    using assms(2,3) by (simp add: py_index_Inr)
  with assms(1) show ?thesis by (simp add: target_set_def)
qed

text \<open>
  C1. An access that returns and is a miss increments \<open>misses\<close>, records the pair
  (tag, index), and increments exactly one of the three sub-counters: the one the four
  rules of the specification choose, in their priority order, from whether the pair was
  recorded before, whether the target set is full and whether the whole cache is full,
  all three read from the object before the access, that is before the new line is
  installed. Rule 4 counts a recorded pair in a set that is not full as compulsory.
\<close>

theorem miss_classification:
  assumes "access_cache rnd self address = Inr self'" and "\<not> is_hit self address"
  shows "total_accesses self' = total_accesses self + 1
    \<and> hits self' = hits self \<and> misses self' = misses self + 1
    \<and> seen_tags self' = insert (get_address_components self address) (seen_tags self)
    \<and> miss_counters self' =
        count_miss
          (classify_spec (get_address_components self address \<notin> seen_tags self)
             (set_full self address) (cache_full self))
          (miss_counters self)"
  using assms(1)
proof (cases rule: access_cache_cases)
  case (hit tag index i k)
  then have "target_set self address = cache self ! i"
    by (simp add: target_set_eq)
  with hit assms(2) show ?thesis by (simp add: is_hit_def)
next
  case (miss tag index i set')
  then have t: "target_set self address = cache self ! i"
    by (simp add: target_set_eq)
  have "miss_counters self' =
      miss_counters (classify_miss (self\<lparr>total_accesses := total_accesses self + 1\<rparr>) tag index
         (assoc self \<le> int (length (cache self ! i)))
         (nsets self * assoc self \<le> sum_list (map (\<lambda>s. int (length s)) (cache self))))"
    unfolding miss(7) by (simp add: miss_counters_def)
  also have "\<dots> = count_miss
          (classify_spec (get_address_components self address \<notin> seen_tags self)
             (set_full self address) (cache_full self))
          (miss_counters self)"
    unfolding classify_miss_counters
    by (simp add: miss(1) set_full_def cache_full_def t miss_counters_def)
  finally show ?thesis
    unfolding miss(7) by (simp add: miss(1))
qed

theorem miss_classification_witness:
  "access_cache zero_draws (projr (simulate zero_draws 2 1 1 ''L'' [0, 2])) 0
     = Inr (projr (simulate zero_draws 2 1 1 ''L'' [0, 2, 0]))
   \<and> \<not> is_hit (projr (simulate zero_draws 2 1 1 ''L'' [0, 2])) 0
   \<and> classify_spec
        (get_address_components (projr (simulate zero_draws 2 1 1 ''L'' [0, 2])) 0
           \<notin> seen_tags (projr (simulate zero_draws 2 1 1 ''L'' [0, 2])))
        (set_full (projr (simulate zero_draws 2 1 1 ''L'' [0, 2])) 0)
        (cache_full (projr (simulate zero_draws 2 1 1 ''L'' [0, 2]))) = Conflict
   \<and> miss_counters (projr (simulate zero_draws 2 1 1 ''L'' [0, 2])) = (2, 0, 0)
   \<and> miss_counters (projr (simulate zero_draws 2 1 1 ''L'' [0, 2, 0])) = (2, 0, 1)"
proof -
  have a: "access_cache zero_draws (projr (simulate zero_draws 2 1 1 ''L'' [0, 2])) 0
     = Inr (projr (simulate zero_draws 2 1 1 ''L'' [0, 2, 0]))"
    by (simp add: eval_defs upper_L)
  have h: "\<not> is_hit (projr (simulate zero_draws 2 1 1 ''L'' [0, 2])) 0"
    by (simp add: eval_defs upper_L)
  have k: "classify_spec
        (get_address_components (projr (simulate zero_draws 2 1 1 ''L'' [0, 2])) 0
           \<notin> seen_tags (projr (simulate zero_draws 2 1 1 ''L'' [0, 2])))
        (set_full (projr (simulate zero_draws 2 1 1 ''L'' [0, 2])) 0)
        (cache_full (projr (simulate zero_draws 2 1 1 ''L'' [0, 2]))) = Conflict"
    by (simp add: eval_defs upper_L)
  have m: "miss_counters (projr (simulate zero_draws 2 1 1 ''L'' [0, 2])) = (2, 0, 0)"
    by (simp add: eval_defs upper_L)
  from miss_classification [OF a h] show ?thesis
    using a h unfolding k m by simp
qed

lemma access_cache_counters:
  assumes "access_cache rnd self address = Inr self'" and "counters_consistent self"
  shows "counters_consistent self' \<and> counters_le self self'"
  using assms(1)
proof (cases rule: access_cache_cases)
  case (hit tag index i k)
  with assms(2) show ?thesis
    by (simp add: counters_consistent_def counters_le_def)
next
  case (miss tag index i set')
  with assms(2) show ?thesis
    by (simp add: counters_consistent_def counters_le_def classify_miss_def Let_def)
qed

lemma counters_le_refl: "counters_le s s"
  by (simp add: counters_le_def)

lemma counters_le_trans: "counters_le s1 s2 \<Longrightarrow> counters_le s2 s3 \<Longrightarrow> counters_le s1 s3"
  by (auto simp: counters_le_def)

lemma run_counters:
  assumes "run rnd self xs = Inr self'" and "counters_consistent self"
  shows "counters_consistent self' \<and> counters_le self self'"
  using assms(1,2)
proof (rule run_step_induct)
  show "counters_consistent s1 \<and> counters_le s s1"
    if "counters_consistent s" "access_cache rnd s a = Inr s1" for s a s1
    using that(2,1) by (rule access_cache_counters)
qed (auto intro: counters_le_refl counters_le_trans)

lemma run_prefix:
  assumes "run rnd self (xs @ ys) = Inr self2"
  obtains self1 where "run rnd self xs = Inr self1" "run rnd self1 ys = Inr self2"
  using assms by (auto simp: run_append split: sum.splits)

text \<open>
  C2. In every run that reaches the end of its trace, after every access (the object
  \<open>self1\<close> after any prefix of the trace, and the final object \<open>self2\<close>):
  \<open>hits + misses = total_accesses\<close>,
  \<open>compulsory_misses + capacity_misses + conflict_misses = misses\<close>, the six counters
  are non-negative, and no counter is smaller later in the run than it was earlier. This
  holds for every configuration, valid or not, and every generator. (An access whose
  index is not below the number of sets raises \<^verbatim>\<open>IndexError\<close> and the run ends
  there with no statistics; \<open>run_total\<close> and \<open>run_raises\<close> below say when.)
\<close>

theorem counters_invariant:
  assumes "simulate rnd n b a s (before @ after) = Inr self2"
  shows "\<exists>self1. simulate rnd n b a s before = Inr self1
    \<and> counters_consistent self1 \<and> counters_consistent self2 \<and> counters_le self1 self2"
proof -
  from assms obtain self1 where r: "run rnd (Cache_init n b a s) before = Inr self1"
    "run rnd self1 after = Inr self2"
    unfolding simulate_def by (rule run_prefix)
  have "counters_consistent (Cache_init n b a s)"
    by (simp add: counters_consistent_def Cache_init_def)
  with run_counters [OF r(1)] have "counters_consistent self1" by simp
  with run_counters [OF r(2)] r(1) show ?thesis
    by (simp add: simulate_def)
qed

theorem counters_invariant_witness:
  "simulate zero_draws 2 1 1 ''L'' ([0, 2] @ [0])
     = Inr (projr (simulate zero_draws 2 1 1 ''L'' [0, 2, 0]))
   \<and> counters (projr (simulate zero_draws 2 1 1 ''L'' [0, 2, 0])) = (3, 0, 3, 2, 0, 1)
   \<and> (\<exists>self1. simulate zero_draws 2 1 1 ''L'' [0, 2] = Inr self1
        \<and> counters self1 = (2, 0, 2, 2, 0, 0)
        \<and> counters_consistent self1
        \<and> counters_consistent (projr (simulate zero_draws 2 1 1 ''L'' [0, 2, 0]))
        \<and> counters_le self1 (projr (simulate zero_draws 2 1 1 ''L'' [0, 2, 0])))"
proof -
  have a: "simulate zero_draws 2 1 1 ''L'' ([0, 2] @ [0])
     = Inr (projr (simulate zero_draws 2 1 1 ''L'' [0, 2, 0]))"
    by (simp add: eval_defs upper_L)
  have c: "counters (projr (simulate zero_draws 2 1 1 ''L'' [0, 2, 0])) = (3, 0, 3, 2, 0, 1)"
    by (simp add: eval_defs upper_L)
  have d: "counters (projr (simulate zero_draws 2 1 1 ''L'' [0, 2])) = (2, 0, 2, 2, 0, 0)"
    by (simp add: eval_defs upper_L)
  from counters_invariant [OF a] obtain self1 where
    s: "simulate zero_draws 2 1 1 ''L'' [0, 2] = Inr self1"
      "counters_consistent self1"
      "counters_consistent (projr (simulate zero_draws 2 1 1 ''L'' [0, 2, 0]))"
      "counters_le self1 (projr (simulate zero_draws 2 1 1 ''L'' [0, 2, 0]))"
    by blast
  from s(1) d have "counters self1 = (2, 0, 2, 2, 0, 0)" by simp
  with a c s show ?thesis by blast
qed

text \<open>
  C9. For a non-negative associativity, at every point of every run that reaches the end
  of its trace (the object \<open>self1\<close> after any prefix, and the final object
  \<open>self2\<close>): every set has at most \<open>associativity\<close> entries, every stored entry has
  its valid flag set, the tags within one set are pairwise distinct, the number of sets
  stays the same and no set is shorter later in the run than it was earlier.
\<close>

theorem sets_bounded_valid_distinct:
  assumes "0 \<le> a" and "simulate rnd n b a s (before @ after) = Inr self2"
  shows "\<exists>self1. simulate rnd n b a s before = Inr self1
     \<and> list_all (set_ok a) (cache self1) \<and> list_all (set_ok a) (cache self2)
     \<and> length (cache self1) = length (cache self2)
     \<and> (\<forall>i<length (cache self1). length (cache self1 ! i) \<le> length (cache self2 ! i))"
proof -
  from assms(2) obtain self1 where r: "run rnd (Cache_init n b a s) before = Inr self1"
    "run rnd self1 after = Inr self2"
    unfolding simulate_def by (rule run_prefix)
  note i = Cache_init_ok [OF assms(1), of n b s]
  note 1 = run_ok [OF r(1) i]
  then have 2: "cache_ok self2 \<and> same_shape self1 self2"
    using run_ok [OF r(2)] by simp
  have "assoc self1 = a" "assoc self2 = a"
    using 1 2 by (simp_all add: same_shape_def Cache_init_def)
  with 1 2 r(1) show ?thesis
    by (simp add: simulate_def cache_ok_def same_shape_def)
qed

theorem sets_bounded_valid_distinct_witness:
  "(0::int) \<le> 2
   \<and> simulate zero_draws 2 1 2 ''L'' ([0, 2] @ [4, 6])
       = Inr (projr (simulate zero_draws 2 1 2 ''L'' [0, 2, 4, 6]))
   \<and> cache (projr (simulate zero_draws 2 1 2 ''L'' [0, 2, 4, 6]))
       = [[(2, True, 3), (3, True, 4)], []]
   \<and> (\<exists>self1. simulate zero_draws 2 1 2 ''L'' [0, 2] = Inr self1
        \<and> cache self1 = [[(0, True, 1), (1, True, 2)], []]
        \<and> list_all (set_ok 2) (cache self1)
        \<and> list_all (set_ok 2) (cache (projr (simulate zero_draws 2 1 2 ''L'' [0, 2, 4, 6])))
        \<and> length (cache self1)
            = length (cache (projr (simulate zero_draws 2 1 2 ''L'' [0, 2, 4, 6]))))"
proof -
  have z: "(0::int) \<le> 2" by simp
  have a: "simulate zero_draws 2 1 2 ''L'' ([0, 2] @ [4, 6])
       = Inr (projr (simulate zero_draws 2 1 2 ''L'' [0, 2, 4, 6]))"
    by (simp add: eval_defs upper_L)
  have c: "cache (projr (simulate zero_draws 2 1 2 ''L'' [0, 2, 4, 6]))
       = [[(2, True, 3), (3, True, 4)], []]"
    by (simp add: eval_defs upper_L)
  have d: "cache (projr (simulate zero_draws 2 1 2 ''L'' [0, 2]))
       = [[(0, True, 1), (1, True, 2)], []]"
    by (simp add: eval_defs upper_L)
  from sets_bounded_valid_distinct [OF z a] obtain self1 where
    s: "simulate zero_draws 2 1 2 ''L'' [0, 2] = Inr self1"
      "list_all (set_ok 2) (cache self1)"
      "list_all (set_ok 2) (cache (projr (simulate zero_draws 2 1 2 ''L'' [0, 2, 4, 6])))"
      "length (cache self1)
            = length (cache (projr (simulate zero_draws 2 1 2 ''L'' [0, 2, 4, 6])))"
    by blast
  from s(1) d have "cache self1 = [[(0, True, 1), (1, True, 2)], []]" by simp
  with z a c s show ?thesis by blast
qed

section \<open>The replacement policies\<close>

lemma remove1_first_occurrence:
  "k < length xs \<Longrightarrow> \<forall>j<k. xs ! j \<noteq> xs ! k \<Longrightarrow>
   remove1 (xs ! k) xs = take k xs @ drop (Suc k) xs"
proof (induction xs arbitrary: k)
  case Nil
  then show ?case by simp
next
  case (Cons x xs)
  show ?case
  proof (cases k)
    case 0
    then show ?thesis by simp
  next
    case (Suc k')
    with Cons.prems have "x \<noteq> xs ! k'" by auto
    moreover have "remove1 (xs ! k') xs = take k' xs @ drop (Suc k') xs"
    proof (rule Cons.IH)
      show "k' < length xs" using Cons.prems(1) Suc by simp
      show "\<forall>j<k'. xs ! j \<noteq> xs ! k'"
        using Cons.prems(2) Suc by auto
    qed
    ultimately show ?thesis using Suc by simp
  qed
qed

lemma hit_entry:
  assumes "find_hit tag xs = Some k"
  shows "(e_tag (xs ! k), e_valid (xs ! k), now) = (tag, True, now)"
    and "remove1 (xs ! k) xs = take k xs @ drop (Suc k) xs"
proof -
  note h = find_hit_Some [OF assms]
  then show "(e_tag (xs ! k), e_valid (xs ! k), now) = (tag, True, now)" by simp
  have "\<forall>j<k. xs ! j \<noteq> xs ! k" using h by metis
  with h show "remove1 (xs ! k) xs = take k xs @ drop (Suc k) xs"
    by (simp add: remove1_first_occurrence)
qed

text \<open>
  C6. Under policy \<open>'L'\<close>, for an access that returns: the access counter is
  incremented first and is the stamp used; a hit at position \<open>k\<close> overwrites that entry's
  order key with the counter; a miss into a set that is not full appends the new entry
  stamped with the counter; a miss into a full set overwrites, in place, the entry at a
  position \<open>m\<close> whose order key is the smallest of the set and strictly smaller than
  the keys at all positions before \<open>m\<close> (the first of the smallest ones). For one set of
  associativity 2 and distinct tags A, B, C, the accesses A, B, A, C leave A and C
  resident: B is the victim.
\<close>

theorem lru_policy:
  assumes "subst self = ''L''" and "access_cache rnd self address = Inr self'"
    and "get_address_components self address = (tag, index)"
  shows "total_accesses self' = total_accesses self + 1
    \<and> (\<forall>k. find_hit tag (target_set self address) = Some k \<longrightarrow>
          cache self' = (cache self)
            [nat index := (target_set self address)[k := (tag, True, total_accesses self')]])
    \<and> (\<not> is_hit self address \<and> \<not> set_full self address \<longrightarrow>
          cache self' = (cache self)
            [nat index := target_set self address @ [(tag, True, total_accesses self')]])
    \<and> (\<not> is_hit self address \<and> set_full self address \<longrightarrow>
          (\<exists>m<length (target_set self address).
             (\<forall>j<length (target_set self address).
                e_time (target_set self address ! m) \<le> e_time (target_set self address ! j))
             \<and> (\<forall>j<m. e_time (target_set self address ! m)
                         < e_time (target_set self address ! j))
             \<and> cache self' = (cache self)
                 [nat index := (target_set self address)
                    [m := (tag, True, total_accesses self')]]))
    \<and> (\<forall>A B C. A \<noteq> B \<and> A \<noteq> C \<and> B \<noteq> C \<longrightarrow>
          map_sum id cache (simulate rnd 1 1 2 ''L'' [A, B, A, C])
            = Inr [[(A, True, 3), (C, True, 4)]])"
proof -
  have ex: "map_sum id cache (simulate rnd 1 1 2 ''L'' [A, B, A, C])
            = Inr [[(A, True, 3), (C, True, 4)]]"
    if "A \<noteq> B" "A \<noteq> C" "B \<noteq> C" for A B C
    using that by (simp add: eval_defs upper_L)
  from assms(2) have "total_accesses self' = total_accesses self + 1
    \<and> (\<forall>k. find_hit tag (target_set self address) = Some k \<longrightarrow>
          cache self' = (cache self)
            [nat index := (target_set self address)[k := (tag, True, total_accesses self')]])
    \<and> (\<not> is_hit self address \<and> \<not> set_full self address \<longrightarrow>
          cache self' = (cache self)
            [nat index := target_set self address @ [(tag, True, total_accesses self')]])
    \<and> (\<not> is_hit self address \<and> set_full self address \<longrightarrow>
          (\<exists>m<length (target_set self address).
             (\<forall>j<length (target_set self address).
                e_time (target_set self address ! m) \<le> e_time (target_set self address ! j))
             \<and> (\<forall>j<m. e_time (target_set self address ! m)
                         < e_time (target_set self address ! j))
             \<and> cache self' = (cache self)
                 [nat index := (target_set self address)
                    [m := (tag, True, total_accesses self')]]))"
  proof (cases rule: access_cache_cases)
    case (hit tag' index' i k)
    with assms(3) have e: "tag' = tag" "index' = index" by simp_all
    have t: "target_set self address = cache self ! i"
      using hit by (simp add: target_set_eq)
    have "is_hit self address" using hit t e by (simp add: is_hit_def assms(3))
    moreover have "cache self' = (cache self)
            [nat index := (target_set self address)[k := (tag, True, total_accesses self')]]"
      unfolding hit(6) using hit(3,5) e t assms(1) hit_entry(1) [OF hit(5)]
      by (simp add: touch_L)
    ultimately show ?thesis
      using hit(5) t e unfolding hit(6) by simp
  next
    case (miss tag' index' i set')
    with assms(3) have e: "tag' = tag" "index' = index" by simp_all
    have t: "target_set self address = cache self ! i"
      using miss by (simp add: target_set_eq)
    have nh: "\<not> is_hit self address" "find_hit tag (target_set self address) = None"
      using miss t e by (simp_all add: is_hit_def assms(3))
    have c: "cache self' = (cache self)[nat index := set']"
      "total_accesses self' = total_accesses self + 1"
      unfolding miss(7) using miss(3) e by simp_all
    show ?thesis
    proof (cases "set_full self address")
      case False
      with miss(6) t have "set' = target_set self address @ [(tag, True, total_accesses self')]"
        unfolding c(2) by (simp add: install_def set_full_def e)
      with False nh c show ?thesis by simp
    next
      case True
      with miss(6) t assms(1) obtain first rest where
        x: "target_set self address = first # rest"
        "set' = (target_set self address)
           [lru_scan rest 1 (e_time first) 0 := (tag, True, total_accesses self')]"
        unfolding c(2) by (auto simp: install_def set_full_def e split: list.splits)
      note v = lru_victim [of rest first, folded x(1)]
      with True nh c x(2) show ?thesis by auto
    qed
  qed
  with ex show ?thesis by blast
qed


theorem lru_policy_witness:
  "subst (projr (simulate zero_draws 1 1 2 ''L'' [5, 7, 5])) = ''L''
   \<and> access_cache zero_draws (projr (simulate zero_draws 1 1 2 ''L'' [5, 7, 5])) 9
       = Inr (projr (simulate zero_draws 1 1 2 ''L'' [5, 7, 5, 9]))
   \<and> get_address_components (projr (simulate zero_draws 1 1 2 ''L'' [5, 7, 5])) 9 = (9, 0)
   \<and> \<not> is_hit (projr (simulate zero_draws 1 1 2 ''L'' [5, 7, 5])) 9
   \<and> set_full (projr (simulate zero_draws 1 1 2 ''L'' [5, 7, 5])) 9
   \<and> target_set (projr (simulate zero_draws 1 1 2 ''L'' [5, 7, 5])) 9
       = [(5, True, 3), (7, True, 2)]
   \<and> cache (projr (simulate zero_draws 1 1 2 ''L'' [5, 7, 5, 9]))
       = [[(5, True, 3), (9, True, 4)]]
   \<and> (\<exists>m<length (target_set (projr (simulate zero_draws 1 1 2 ''L'' [5, 7, 5])) 9).
        cache (projr (simulate zero_draws 1 1 2 ''L'' [5, 7, 5, 9]))
          = (cache (projr (simulate zero_draws 1 1 2 ''L'' [5, 7, 5])))
              [nat 0 := (target_set (projr (simulate zero_draws 1 1 2 ''L'' [5, 7, 5])) 9)
                 [m := (9, True,
                        total_accesses (projr (simulate zero_draws 1 1 2 ''L'' [5, 7, 5, 9])))]])"
proof -
  have h1: "subst (projr (simulate zero_draws 1 1 2 ''L'' [5, 7, 5])) = ''L''"
    by (simp add: eval_defs upper_L)
  have h2: "access_cache zero_draws (projr (simulate zero_draws 1 1 2 ''L'' [5, 7, 5])) 9
       = Inr (projr (simulate zero_draws 1 1 2 ''L'' [5, 7, 5, 9]))"
    by (simp add: eval_defs upper_L)
  have h3: "get_address_components (projr (simulate zero_draws 1 1 2 ''L'' [5, 7, 5])) 9
       = (9, 0)"
    by (simp add: eval_defs upper_L)
  have m: "\<not> is_hit (projr (simulate zero_draws 1 1 2 ''L'' [5, 7, 5])) 9"
    by (simp add: eval_defs upper_L)
  have f: "set_full (projr (simulate zero_draws 1 1 2 ''L'' [5, 7, 5])) 9"
    by (simp add: eval_defs upper_L)
  have t: "target_set (projr (simulate zero_draws 1 1 2 ''L'' [5, 7, 5])) 9
       = [(5, True, 3), (7, True, 2)]"
    by (simp add: eval_defs upper_L)
  have c: "cache (projr (simulate zero_draws 1 1 2 ''L'' [5, 7, 5, 9]))
       = [[(5, True, 3), (9, True, 4)]]"
    by (simp add: eval_defs upper_L)
  from lru_policy [OF h1 h2 h3] m f
  have "\<exists>m<length (target_set (projr (simulate zero_draws 1 1 2 ''L'' [5, 7, 5])) 9).
        cache (projr (simulate zero_draws 1 1 2 ''L'' [5, 7, 5, 9]))
          = (cache (projr (simulate zero_draws 1 1 2 ''L'' [5, 7, 5])))
              [nat 0 := (target_set (projr (simulate zero_draws 1 1 2 ''L'' [5, 7, 5])) 9)
                 [m := (9, True,
                        total_accesses (projr (simulate zero_draws 1 1 2 ''L'' [5, 7, 5, 9])))]]"
    by blast
  with h1 h2 h3 m f t c show ?thesis by blast
qed

text \<open>
  C3 (as the code behaves). Under policy \<open>'F'\<close>, for an access that returns: a miss
  into a full set removes the entry at the front of the set's list and appends the new
  one at the back; a miss into a set that is not full appends the new entry; a hit at
  position \<open>k\<close> moves that entry to the back of the list, the other entries keeping
  their order. So the victim is the front entry, the one whose last install or hit is
  the earliest; a hit on the front entry makes the entry behind it the next victim.
\<close>

theorem fifo_policy:
  assumes "subst self = ''F''" and "access_cache rnd self address = Inr self'"
    and "get_address_components self address = (tag, index)"
  shows "(\<forall>k. find_hit tag (target_set self address) = Some k \<longrightarrow>
          cache self' = (cache self)
            [nat index := take k (target_set self address)
               @ drop (Suc k) (target_set self address) @ [target_set self address ! k]])
    \<and> (\<not> is_hit self address \<and> \<not> set_full self address \<longrightarrow>
          cache self' = (cache self)
            [nat index := target_set self address @ [(tag, True, total_accesses self + 1)]])
    \<and> (\<not> is_hit self address \<and> set_full self address \<longrightarrow>
          target_set self address \<noteq> []
          \<and> cache self' = (cache self)
            [nat index := tl (target_set self address) @ [(tag, True, total_accesses self + 1)]])"
  using assms(2)
proof (cases rule: access_cache_cases)
  case (hit tag' index' i k)
  with assms(3) have e: "tag' = tag" "index' = index" by simp_all
  have t: "target_set self address = cache self ! i"
    using hit by (simp add: target_set_eq)
  have "is_hit self address" using hit t e by (simp add: is_hit_def assms(3))
  moreover have "cache self' = (cache self)
            [nat index := take k (target_set self address)
               @ drop (Suc k) (target_set self address) @ [target_set self address ! k]]"
    unfolding hit(6) using hit(3,5) e t assms(1) hit_entry(2) [OF hit(5)]
    by (simp add: touch_F)
  ultimately show ?thesis
    using hit(5) t e by simp
next
  case (miss tag' index' i set')
  with assms(3) have e: "tag' = tag" "index' = index" by simp_all
  have t: "target_set self address = cache self ! i"
    using miss by (simp add: target_set_eq)
  have nh: "\<not> is_hit self address" "find_hit tag (target_set self address) = None"
    using miss t e by (simp_all add: is_hit_def assms(3))
  have c: "cache self' = (cache self)[nat index := set']"
    unfolding miss(7) using miss(3) e by simp
  show ?thesis
  proof (cases "set_full self address")
    case False
    with miss(6) t have "set' = target_set self address @ [(tag, True, total_accesses self + 1)]"
      by (simp add: install_def set_full_def e)
    with False nh c show ?thesis by simp
  next
    case True
    with miss(6) t assms(1) obtain oldest rest where
      "target_set self address = oldest # rest"
      "set' = rest @ [(tag, True, total_accesses self + 1)]"
      by (auto simp: install_def set_full_def e split: list.splits)
    with True nh c show ?thesis by simp
  qed
qed

theorem fifo_policy_witness:
  "subst (projr (simulate zero_draws 1 1 2 ''F'' [0, 1])) = ''F''
   \<and> access_cache zero_draws (projr (simulate zero_draws 1 1 2 ''F'' [0, 1])) 0
       = Inr (projr (simulate zero_draws 1 1 2 ''F'' [0, 1, 0]))
   \<and> get_address_components (projr (simulate zero_draws 1 1 2 ''F'' [0, 1])) 0 = (0, 0)
   \<and> find_hit 0 (target_set (projr (simulate zero_draws 1 1 2 ''F'' [0, 1])) 0) = Some 0
   \<and> target_set (projr (simulate zero_draws 1 1 2 ''F'' [0, 1])) 0
       = [(0, True, 1), (1, True, 2)]
   \<and> cache (projr (simulate zero_draws 1 1 2 ''F'' [0, 1, 0]))
       = [[(1, True, 2), (0, True, 1)]]
   \<and> cache (projr (simulate zero_draws 1 1 2 ''F'' [0, 1, 0]))
       = (cache (projr (simulate zero_draws 1 1 2 ''F'' [0, 1])))
           [nat 0 := take 0 (target_set (projr (simulate zero_draws 1 1 2 ''F'' [0, 1])) 0)
              @ drop (Suc 0) (target_set (projr (simulate zero_draws 1 1 2 ''F'' [0, 1])) 0)
              @ [target_set (projr (simulate zero_draws 1 1 2 ''F'' [0, 1])) 0 ! 0]]"
proof -
  have h1: "subst (projr (simulate zero_draws 1 1 2 ''F'' [0, 1])) = ''F''"
    by (simp add: eval_defs upper_F)
  have h2: "access_cache zero_draws (projr (simulate zero_draws 1 1 2 ''F'' [0, 1])) 0
       = Inr (projr (simulate zero_draws 1 1 2 ''F'' [0, 1, 0]))"
    by (simp add: eval_defs upper_F)
  have h3: "get_address_components (projr (simulate zero_draws 1 1 2 ''F'' [0, 1])) 0 = (0, 0)"
    by (simp add: eval_defs upper_F)
  have k: "find_hit 0 (target_set (projr (simulate zero_draws 1 1 2 ''F'' [0, 1])) 0) = Some 0"
    by (simp add: eval_defs upper_F)
  have t: "target_set (projr (simulate zero_draws 1 1 2 ''F'' [0, 1])) 0
       = [(0, True, 1), (1, True, 2)]"
    by (simp add: eval_defs upper_F)
  have c: "cache (projr (simulate zero_draws 1 1 2 ''F'' [0, 1, 0]))
       = [[(1, True, 2), (0, True, 1)]]"
    by (simp add: eval_defs upper_F)
  from fifo_policy [OF h1 h2 h3] k
  have "cache (projr (simulate zero_draws 1 1 2 ''F'' [0, 1, 0]))
       = (cache (projr (simulate zero_draws 1 1 2 ''F'' [0, 1])))
           [nat 0 := take 0 (target_set (projr (simulate zero_draws 1 1 2 ''F'' [0, 1])) 0)
              @ drop (Suc 0) (target_set (projr (simulate zero_draws 1 1 2 ''F'' [0, 1])) 0)
              @ [target_set (projr (simulate zero_draws 1 1 2 ''F'' [0, 1])) 0 ! 0]]"
    by blast
  with h1 h2 h3 k t c show ?thesis by blast
qed

text \<open>
  The claim as the specification states it fails: in one set of associativity 2 holding
  tags 0 (inserted first) and 1, installing tag 2 evicts tag 0; after a hit on tag 0 the
  same install evicts tag 1, although tag 0 is still the earliest inserted entry.
\<close>

theorem fifo_hit_changes_victim:
  "map_sum id cache (simulate zero_draws 1 1 2 ''F'' [0, 1]) = Inr [[(0, True, 1), (1, True, 2)]]
   \<and> map_sum id cache (simulate zero_draws 1 1 2 ''F'' [0, 1, 2])
       = Inr [[(1, True, 2), (2, True, 3)]]
   \<and> map_sum id cache (simulate zero_draws 1 1 2 ''F'' [0, 1, 0])
       = Inr [[(1, True, 2), (0, True, 1)]]
   \<and> map_sum id cache (simulate zero_draws 1 1 2 ''F'' [0, 1, 0, 2])
       = Inr [[(0, True, 1), (2, True, 4)]]"
  by (simp add: eval_defs upper_F)

section \<open>Recorded pairs and compulsory misses\<close>

lemma resident_seen_update:
  assumes "resident_seen cs seen" and "i < length cs"
    and "e_tag ` set new \<subseteq> insert tag (e_tag ` set (cs ! i))"
  shows "resident_seen (cs[i := new]) (insert (tag, int i) seen)"
  unfolding resident_seen_def
proof (intro allI impI ballI)
  fix j e assume j: "j < length (cs[i := new])" and e: "e \<in> set (cs[i := new] ! j)"
  show "(e_tag e, int j) \<in> insert (tag, int i) seen"
  proof (cases "j = i")
    case True
    with e assms(2) have "e_tag e \<in> e_tag ` set new" by simp
    with assms(3) have "e_tag e = tag \<or> e_tag e \<in> e_tag ` set (cs ! i)" by blast
    then show ?thesis
    proof
      assume "e_tag e = tag" with True show ?thesis by simp
    next
      assume "e_tag e \<in> e_tag ` set (cs ! i)"
      then obtain e' where "e' \<in> set (cs ! i)" "e_tag e' = e_tag e" by auto
      with assms(1,2) True show ?thesis unfolding resident_seen_def by force
    qed
  next
    case False
    with j e have "j < length cs" "e \<in> set (cs ! j)" by simp_all
    with assms(1) show ?thesis unfolding resident_seen_def by blast
  qed
qed

lemma seen_resident_update:
  assumes "seen_resident a cs seen" and "i < length cs"
    and "int (length new) < a \<Longrightarrow>
           int (length (cs ! i)) < a \<and> e_tag ` set (cs ! i) \<subseteq> e_tag ` set new
           \<and> tag \<in> e_tag ` set new"
  shows "seen_resident a (cs[i := new]) (insert (tag, int i) seen)"
  unfolding seen_resident_def
proof (intro ballI, clarify)
  fix t ix assume m: "(t, ix) \<in> insert (tag, int i) seen"
  have r: "0 \<le> ix \<and> nat ix < length cs"
    using m assms(1,2) unfolding seen_resident_def by auto
  have "int (length (cs[i := new] ! nat ix)) < a \<longrightarrow> t \<in> e_tag ` set (cs[i := new] ! nat ix)"
  proof (cases "nat ix = i")
    case True
    show ?thesis
    proof
      assume "int (length (cs[i := new] ! nat ix)) < a"
      with True assms(2) have l: "int (length new) < a" by simp
      note u = assms(3) [OF l]
      from m show "t \<in> e_tag ` set (cs[i := new] ! nat ix)"
      proof
        assume "(t, ix) = (tag, int i)"
        with u True assms(2) show ?thesis by simp
      next
        assume "(t, ix) \<in> seen"
        with assms(1) u True have "t \<in> e_tag ` set (cs ! i)"
          unfolding seen_resident_def by auto
        with u True assms(2) show ?thesis by auto
      qed
    qed
  next
    case False
    with m r have "(t, ix) \<in> seen" by auto
    with assms(1) False show ?thesis unfolding seen_resident_def by auto
  qed
  with r show "0 \<le> ix \<and> nat ix < length (cs[i := new])
    \<and> (int (length (cs[i := new] ! nat ix)) < a \<longrightarrow> t \<in> e_tag ` set (cs[i := new] ! nat ix))"
    by simp
qed

lemma hit_resident:
  assumes "find_hit tag xs = Some k"
  shows "tag \<in> e_tag ` set xs"
  using find_hit_Some [OF assms] by (metis imageI nth_mem)

lemma repeat_miss_set_full:
  assumes "seen_resident a cs seen" and "(tag, index) \<in> seen"
    and "list_all e_valid (cs ! nat index)" and "find_hit tag (cs ! nat index) = None"
  shows "a \<le> int (length (cs ! nat index))"
proof (rule ccontr)
  assume "\<not> a \<le> int (length (cs ! nat index))"
  with assms(1,2) have "tag \<in> e_tag ` set (cs ! nat index)"
    unfolding seen_resident_def by auto
  moreover have "tag \<notin> set (map e_tag (cs ! nat index))"
    using assms(4,3) by (rule miss_tag_fresh)
  ultimately show False by simp
qed

lemma touch_tag_set:
  "k < length xs \<Longrightarrow> e_tag ` set (touch pol now xs k) = e_tag ` set xs"
proof -
  assume "k < length xs"
  then have "set (map e_tag (touch pol now xs k)) = set (map e_tag xs)"
    using touch_tags [of k xs pol now] by (metis mset_eq_setD)
  then show ?thesis by simp
qed

lemma access_cache_seen:
  assumes acc: "access_cache rnd self address = Inr self'"
    and ok: "cache_ok self" and inv: "seen_inv self"
  shows "seen_inv self'
    \<and> seen_tags self' = insert (get_address_components self address) (seen_tags self)"
  using acc
proof (cases rule: access_cache_cases)
  case (hit tag index i k)
  have ii: "int i = index" using hit(2,3) by simp
  from hit(5) have k: "k < length (cache self ! i)"
    by (simp add: find_hit_Some)
  let ?new = "touch (subst self) (total_accesses self + 1) (cache self ! i) k"
  have ts: "e_tag ` set ?new = e_tag ` set (cache self ! i)"
    using k by (rule touch_tag_set)
  have l: "length ?new = length (cache self ! i)" using k by (rule touch_length)
  have tin: "tag \<in> e_tag ` set (cache self ! i)"
    using hit(5) by (rule hit_resident)
  then obtain e where "e \<in> set (cache self ! i)" "e_tag e = tag" by auto
  with inv hit(4) have mem: "(tag, int i) \<in> seen_tags self"
    unfolding seen_inv_def resident_seen_def by blast
  then have same: "insert (tag, int i) (seen_tags self) = seen_tags self" by auto
  have "resident_seen ((cache self)[i := ?new]) (insert (tag, int i) (seen_tags self))"
    using inv hit(4) ts by (intro resident_seen_update) (auto simp: seen_inv_def)
  moreover
  have "seen_resident (assoc self) ((cache self)[i := ?new])
      (insert (tag, int i) (seen_tags self))"
    using inv hit(4) ts l tin by (intro seen_resident_update) (auto simp: seen_inv_def)
  ultimately show ?thesis
    using inv same mem unfolding hit(6) seen_inv_def
    by (simp add: hit(1) ii)
next
  case (miss tag index i set')
  have ii: "int i = index" using miss(2,3) by simp
  from ok miss(4) have s: "set_ok (assoc self) (cache self ! i)"
    by (simp add: cache_ok_def list_all_length)
  note n = set_ok_install [OF s miss(5) miss(6)]
  have "resident_seen ((cache self)[i := set']) (insert (tag, int i) (seen_tags self))"
    using inv miss(4) n by (intro resident_seen_update) (auto simp: seen_inv_def)
  moreover
  have "seen_resident (assoc self) ((cache self)[i := set'])
      (insert (tag, int i) (seen_tags self))"
  proof (rule seen_resident_update)
    show "seen_resident (assoc self) (cache self) (seen_tags self)"
      using inv by (simp add: seen_inv_def)
    show "i < length (cache self)" by (rule miss(4))
    assume "int (length set') < assoc self"
    with n have nf: "\<not> assoc self \<le> int (length (cache self ! i))" by auto
    with n have "set' = cache self ! i @ [(tag, True, total_accesses self + 1)]" by simp
    with nf show "int (length (cache self ! i)) < assoc self
        \<and> e_tag ` set (cache self ! i) \<subseteq> e_tag ` set set' \<and> tag \<in> e_tag ` set set'"
      by (auto simp: e_tag_def)
  qed
  moreover
  have "compulsory_misses self' = int (card (insert (tag, index) (seen_tags self)))"
  proof (cases "(tag, index) \<in> seen_tags self")
    case False
    with inv show ?thesis
      unfolding miss(7) seen_inv_def by (simp add: classify_miss_def Let_def)
  next
    case True
    have "assoc self \<le> int (length (cache self ! nat index))"
    proof (rule repeat_miss_set_full)
      show "seen_resident (assoc self) (cache self) (seen_tags self)"
        using inv by (simp add: seen_inv_def)
      show "(tag, index) \<in> seen_tags self" by (rule True)
      show "list_all e_valid (cache self ! nat index)"
        using s miss(3) by (simp add: set_ok_def)
      show "find_hit tag (cache self ! nat index) = None"
        using miss(5,3) by simp
    qed
    with True inv miss(3) show ?thesis
      unfolding miss(7) seen_inv_def
      by (simp add: classify_miss_def Let_def insert_absorb)
  qed
  ultimately show ?thesis
    using inv unfolding miss(7) seen_inv_def
    by (simp add: miss(1) ii)
qed

lemma Cache_init_seen: "seen_inv (Cache_init n b a s)"
  by (simp add: seen_inv_def Cache_init_def resident_seen_def seen_resident_def)

lemma run_inv_holds:
  assumes "0 \<le> a" and "simulate rnd n b a s trace = Inr self'"
  shows "run_inv (Cache_init n b a s) trace self'"
proof (rule run_invariant [where P = "run_inv (Cache_init n b a s)"])
  show "run rnd (Cache_init n b a s) trace = Inr self'"
    using assms(2) by (simp add: simulate_def)
  show "run_inv (Cache_init n b a s) [] (Cache_init n b a s)"
    using Cache_init_ok [OF assms(1)] Cache_init_seen
    by (simp add: run_inv_def same_shape_refl Cache_init_def)
next
  fix past self address self1
  assume i: "run_inv (Cache_init n b a s) past self"
    and acc: "access_cache rnd self address = Inr self1"
  from i have ok: "cache_ok self" and sn: "seen_inv self"
    and sh: "same_shape (Cache_init n b a s) self"
    and st: "seen_tags self = get_address_components (Cache_init n b a s) ` set past"
    by (simp_all add: run_inv_def)
  note 1 = access_cache_ok [OF acc ok]
  note 2 = access_cache_seen [OF acc ok sn]
  have "same_shape (Cache_init n b a s) self1"
    using sh 1 by (blast intro: same_shape_trans)
  moreover have "seen_tags self1 = get_address_components (Cache_init n b a s) ` set (past @ [address])"
    using 2 st same_shape_decode [OF sh] by auto
  ultimately show "run_inv (Cache_init n b a s) (past @ [address]) self1"
    using 1 2 by (simp add: run_inv_def)
qed

lemma working_set_finite: "finite (working_set self0 trace index)"
proof -
  have "working_set self0 trace index \<subseteq> fst ` (get_address_components self0 ` set trace)"
  proof
    fix t assume "t \<in> working_set self0 trace index"
    then have "(t, index) \<in> get_address_components self0 ` set trace"
      by (simp add: working_set_def)
    then have "fst (t, index) \<in> fst ` (get_address_components self0 ` set trace)"
      by (rule imageI)
    then show "t \<in> fst ` (get_address_components self0 ` set trace)" by simp
  qed
  then show ?thesis by (rule finite_subset) simp
qed

lemma working_set_mono:
  "working_set self0 past index \<subseteq> working_set self0 (past @ rest) index"
  unfolding working_set_def by auto

text \<open>
  C5. For a non-negative associativity, in every run that reaches the end of its trace
  the final \<open>compulsory_misses\<close> is the number of distinct (tag, index) pairs the
  addresses of the trace decode to: each pair is counted as a compulsory miss exactly
  once, at its first occurrence. The defensive branch (line 75: a recorded pair missing
  in a set that is not full) cannot be taken by any access made from a state a run
  reaches.
\<close>

theorem compulsory_once:
  assumes "0 \<le> a" and "simulate rnd n b a s trace = Inr self'"
  shows "compulsory_misses self' =
      int (card (get_address_components (Cache_init n b a s) ` set trace))
    \<and> (\<forall>address. \<not> defensive_branch self' address)"
proof -
  note i = run_inv_holds [OF assms]
  then have ok: "cache_ok self'" and sn: "seen_inv self'"
    and st: "seen_tags self' = get_address_components (Cache_init n b a s) ` set trace"
    by (simp_all add: run_inv_def)
  have "\<not> defensive_branch self' address" for address
  proof
    assume d: "defensive_branch self' address"
    obtain tag index where dec: "get_address_components self' address = (tag, index)"
      by (cases "get_address_components self' address")
    have nn: "0 \<le> index" using decode_index_nonneg [of self' address] dec by simp
    from d dec obtain i where i: "py_index (cache self') index = Inr i"
      and m: "find_hit tag (cache self' ! i) = None"
      and r: "(tag, index) \<in> seen_tags self'"
      and nf: "\<not> assoc self' \<le> int (length (cache self' ! i))"
      by (auto simp: defensive_branch_def split: sum.splits)
    from i nn have ii: "i = nat index" "i < length (cache self')"
      by (simp_all add: py_index_Inr)
    have "assoc self' \<le> int (length (cache self' ! nat index))"
    proof (rule repeat_miss_set_full)
      show "seen_resident (assoc self') (cache self') (seen_tags self')"
        using sn by (simp add: seen_inv_def)
      show "(tag, index) \<in> seen_tags self'" by (rule r)
      show "list_all e_valid (cache self' ! nat index)"
        using ok ii by (simp add: cache_ok_def list_all_length set_ok_def)
      show "find_hit tag (cache self' ! nat index) = None" using m ii by simp
    qed
    with nf ii show False by simp
  qed
  moreover have "compulsory_misses self' =
      int (card (get_address_components (Cache_init n b a s) ` set trace))"
    using sn st by (simp add: seen_inv_def)
  ultimately show ?thesis by blast
qed

lemma repeat_miss_exceeds_working_set:
  assumes ok: "set_ok a xs" and full: "a \<le> int (length xs)"
    and miss: "find_hit tag xs = None"
    and res: "e_tag ` set xs \<subseteq> W" and tg: "tag \<in> W" and fin: "finite W"
  shows "a < int (card W)"
proof -
  have "tag \<notin> set (map e_tag xs)"
    using miss_tag_fresh [OF miss] ok unfolding set_ok_def by blast
  with res have sub: "e_tag ` set xs \<subseteq> W - {tag}" by auto
  have "length xs = card (set (map e_tag xs))"
    using ok distinct_card [of "map e_tag xs"] by (simp add: set_ok_def)
  also have "\<dots> \<le> card (W - {tag})"
    using sub fin by (simp add: card_mono)
  also have "\<dots> < card W"
    using fin tg by (rule card_Diff1_less)
  finally show ?thesis using full by simp
qed

lemma access_cache_within_working_set:
  assumes i: "run_inv self0 past self"
    and acc: "access_cache rnd self address = Inr self1"
    and ws: "\<forall>index. int (card (working_set self0 (past @ [address]) index)) \<le> assoc self"
    and z: "capacity_misses self = 0 \<and> conflict_misses self = 0"
  shows "capacity_misses self1 = 0 \<and> conflict_misses self1 = 0"
  using acc
proof (cases rule: access_cache_cases)
  case (hit tag index i k)
  with z show ?thesis by simp
next
  case (miss tag index j set')
  from i have ok: "cache_ok self" and sn: "seen_inv self"
    and sh: "same_shape self0 self"
    and st: "seen_tags self = get_address_components self0 ` set past"
    by (simp_all add: run_inv_def)
  have jj: "int j = index" using miss(2,3) by simp
  from ok miss(4) have s: "set_ok (assoc self) (cache self ! j)"
    by (simp add: cache_ok_def list_all_length)
  show ?thesis
  proof (cases "(tag, index) \<in> seen_tags self")
    case False
    with z show ?thesis
      unfolding miss(7) by (simp add: classify_miss_def Let_def)
  next
    case True
    have full: "assoc self \<le> int (length (cache self ! j))"
      unfolding miss(3)
    proof (rule repeat_miss_set_full)
      show "seen_resident (assoc self) (cache self) (seen_tags self)"
        using sn by (simp add: seen_inv_def)
      show "(tag, index) \<in> seen_tags self" by (rule True)
      show "list_all e_valid (cache self ! nat index)"
        using s miss(3) by (simp add: set_ok_def)
      show "find_hit tag (cache self ! nat index) = None"
        using miss(5,3) by simp
    qed
    have res: "e_tag ` set (cache self ! j) \<subseteq> working_set self0 past index"
    proof
      fix t assume "t \<in> e_tag ` set (cache self ! j)"
      then obtain e where "e \<in> set (cache self ! j)" "e_tag e = t" by auto
      with sn miss(4) have "(t, int j) \<in> seen_tags self"
        unfolding seen_inv_def resident_seen_def by blast
      then show "t \<in> working_set self0 past index"
        unfolding working_set_def st jj by simp
    qed
    have tg: "tag \<in> working_set self0 past index"
      using True unfolding working_set_def st by simp
    have "assoc self < int (card (working_set self0 past index))"
      using s full miss(5) res tg working_set_finite
      by (rule repeat_miss_exceeds_working_set)
    also have "\<dots> \<le> int (card (working_set self0 (past @ [address]) index))"
      using working_set_mono [of self0 past index "[address]"] working_set_finite
      by (simp add: card_mono)
    also have "\<dots> \<le> assoc self" using ws by simp
    finally show ?thesis by simp
  qed
qed

text \<open>
  C8. For a non-negative associativity, in every run that reaches the end of its trace:
  when, for each index, the number of distinct tags the trace maps to that index does
  not exceed the associativity, the run ends with \<open>capacity_misses = 0\<close> and
  \<open>conflict_misses = 0\<close>, and every miss is counted compulsory.
\<close>

theorem no_capacity_conflict:
  assumes "0 \<le> a" and "simulate rnd n b a s trace = Inr self'"
    and "\<forall>index. int (card (working_set (Cache_init n b a s) trace index)) \<le> a"
  shows "capacity_misses self' = 0 \<and> conflict_misses self' = 0
    \<and> compulsory_misses self' = misses self'"
proof -
  let ?c0 = "Cache_init n b a s"
  let ?P = "\<lambda>past self. run_inv ?c0 past self \<and> counters_consistent self
      \<and> ((\<forall>index. int (card (working_set ?c0 past index)) \<le> a)
           \<longrightarrow> capacity_misses self = 0 \<and> conflict_misses self = 0)"
  have "?P trace self'"
  proof (rule run_invariant [where P = ?P])
    show "run rnd ?c0 trace = Inr self'"
      using assms(2) by (simp add: simulate_def)
    show "?P [] ?c0"
      using Cache_init_ok [OF assms(1)] Cache_init_seen
      by (simp add: run_inv_def same_shape_refl counters_consistent_def Cache_init_def)
  next
    fix past self address self1
    assume p: "?P past self" and acc: "access_cache rnd self address = Inr self1"
    from p have i: "run_inv ?c0 past self" and cc: "counters_consistent self" by simp_all
    then have ok: "cache_ok self" and sn: "seen_inv self"
      and sh: "same_shape ?c0 self"
      and st: "seen_tags self = get_address_components ?c0 ` set past"
      by (simp_all add: run_inv_def)
    have aa: "assoc self = a" using sh by (simp add: same_shape_def Cache_init_def)
    note 1 = access_cache_ok [OF acc ok]
    note 2 = access_cache_seen [OF acc ok sn]
    have "same_shape ?c0 self1"
      using sh 1 by (blast intro: same_shape_trans)
    moreover have "seen_tags self1 = get_address_components ?c0 ` set (past @ [address])"
      using 2 st same_shape_decode [OF sh] by auto
    ultimately have r: "run_inv ?c0 (past @ [address]) self1"
      using 1 2 by (simp add: run_inv_def)
    have c: "counters_consistent self1"
      using access_cache_counters [OF acc cc] by simp
    have "capacity_misses self1 = 0 \<and> conflict_misses self1 = 0"
      if w: "\<forall>index. int (card (working_set ?c0 (past @ [address]) index)) \<le> a"
    proof -
      have "int (card (working_set ?c0 past index)) \<le> a" for index
      proof -
        have "card (working_set ?c0 past index)
            \<le> card (working_set ?c0 (past @ [address]) index)"
          using working_set_mono [of ?c0 past index "[address]"] working_set_finite
          by (simp add: card_mono)
        with w show ?thesis by (meson int_ops(1) le_trans of_nat_mono order.trans)
      qed
      with p have z: "capacity_misses self = 0 \<and> conflict_misses self = 0" by simp
      from i acc _ z show ?thesis
        by (rule access_cache_within_working_set) (use w aa in simp)
    qed
    with r c show "?P (past @ [address]) self1" by blast
  qed
  with assms(3) show ?thesis by (auto simp: counters_consistent_def)
qed

theorem compulsory_once_witness:
  "(0::int) \<le> 1
   \<and> simulate zero_draws 2 1 1 ''L'' [0, 2, 0, 2, 1]
       = Inr (projr (simulate zero_draws 2 1 1 ''L'' [0, 2, 0, 2, 1]))
   \<and> counters (projr (simulate zero_draws 2 1 1 ''L'' [0, 2, 0, 2, 1])) = (5, 0, 5, 3, 0, 2)
   \<and> get_address_components (Cache_init 2 1 1 ''L'') ` set [0, 2, 0, 2, 1]
       = {(0, 0), (1, 0), (0, 1)}
   \<and> compulsory_misses (projr (simulate zero_draws 2 1 1 ''L'' [0, 2, 0, 2, 1]))
       = int (card (get_address_components (Cache_init 2 1 1 ''L'') ` set [0, 2, 0, 2, 1]))
   \<and> \<not> defensive_branch (projr (simulate zero_draws 2 1 1 ''L'' [0, 2, 0, 2, 1])) 0"
proof -
  have z: "(0::int) \<le> 1" by simp
  have r: "simulate zero_draws 2 1 1 ''L'' [0, 2, 0, 2, 1]
       = Inr (projr (simulate zero_draws 2 1 1 ''L'' [0, 2, 0, 2, 1]))"
    by (simp add: eval_defs upper_L)
  have c: "counters (projr (simulate zero_draws 2 1 1 ''L'' [0, 2, 0, 2, 1]))
      = (5, 0, 5, 3, 0, 2)"
    by (simp add: eval_defs upper_L)
  have d: "get_address_components (Cache_init 2 1 1 ''L'') ` set [0, 2, 0, 2, 1]
       = {(0, 0), (1, 0), (0, 1)}"
    by (auto simp: eval_defs upper_L)
  from compulsory_once [OF z r] z r c d show ?thesis by blast
qed

theorem no_capacity_conflict_witness:
  "(0::int) \<le> 2
   \<and> simulate zero_draws 2 1 2 ''L'' [0, 2, 0, 1, 2, 3, 1]
       = Inr (projr (simulate zero_draws 2 1 2 ''L'' [0, 2, 0, 1, 2, 3, 1]))
   \<and> (\<forall>index. int (card (working_set (Cache_init 2 1 2 ''L'') [0, 2, 0, 1, 2, 3, 1] index))
         \<le> 2)
   \<and> counters (projr (simulate zero_draws 2 1 2 ''L'' [0, 2, 0, 1, 2, 3, 1]))
       = (7, 3, 4, 4, 0, 0)
   \<and> capacity_misses (projr (simulate zero_draws 2 1 2 ''L'' [0, 2, 0, 1, 2, 3, 1])) = 0
   \<and> conflict_misses (projr (simulate zero_draws 2 1 2 ''L'' [0, 2, 0, 1, 2, 3, 1])) = 0"
proof -
  have z: "(0::int) \<le> 2" by simp
  have r: "simulate zero_draws 2 1 2 ''L'' [0, 2, 0, 1, 2, 3, 1]
       = Inr (projr (simulate zero_draws 2 1 2 ''L'' [0, 2, 0, 1, 2, 3, 1]))"
    by (simp add: eval_defs upper_L)
  have c: "counters (projr (simulate zero_draws 2 1 2 ''L'' [0, 2, 0, 1, 2, 3, 1]))
       = (7, 3, 4, 4, 0, 0)"
    by (simp add: eval_defs upper_L)
  have d: "get_address_components (Cache_init 2 1 2 ''L'') ` set [0, 2, 0, 1, 2, 3, 1]
       = {(0, 0), (1, 0), (0, 1), (1, 1)}"
    by (auto simp: eval_defs upper_L)
  have w: "int (card (working_set (Cache_init 2 1 2 ''L'') [0, 2, 0, 1, 2, 3, 1] index)) \<le> 2"
    for index
  proof -
    have "working_set (Cache_init 2 1 2 ''L'') [0, 2, 0, 1, 2, 3, 1] index \<subseteq> {0, 1}"
      unfolding working_set_def d by auto
    then have "card (working_set (Cache_init 2 1 2 ''L'') [0, 2, 0, 1, 2, 3, 1] index)
        \<le> card {0, 1::int}"
      by (rule card_mono [rotated]) simp
    then show ?thesis by simp
  qed
  then have w': "\<forall>index.
      int (card (working_set (Cache_init 2 1 2 ''L'') [0, 2, 0, 1, 2, 3, 1] index)) \<le> 2"
    by blast
  from no_capacity_conflict [OF z r w'] z r w' c show ?thesis by blast
qed

section \<open>FIFO as implemented and LRU\<close>

lemma map_remove1_distinct:
  "distinct (map f xs) \<Longrightarrow> x \<in> set xs \<Longrightarrow> map f (remove1 x xs) = remove1 (f x) (map f xs)"
proof (induction xs)
  case Nil
  then show ?case by simp
next
  case (Cons y ys)
  show ?case
  proof (cases "x = y")
    case True
    then show ?thesis by simp
  next
    case False
    with Cons.prems have x: "x \<in> set ys" by simp
    then have "f x \<in> f ` set ys" by (rule imageI)
    with Cons.prems(1) have "f x \<noteq> f y" by auto
    with False Cons.IH x Cons.prems(1) show ?thesis by simp
  qed
qed

lemma find_hit_valid_iff:
  "list_all e_valid xs \<Longrightarrow> find_hit tag xs = None \<longleftrightarrow> tag \<notin> e_tag ` set xs"
  by (auto simp: find_hit_None list_all_iff)

lemma recency_rel_facts:
  assumes "recency_rel now xsF xsL"
  shows "length xsF = length xsL"
    and "e_tag ` set xsF = e_tag ` set xsL"
    and "find_hit tag xsF = None \<longleftrightarrow> find_hit tag xsL = None"
    and "list_all e_valid xsL" and "distinct (map e_time xsL)"
proof -
  from assms obtain ys where ys: "mset ys = mset xsL"
    "distinct (map e_time ys)"
    "list_all (\<lambda>e. e_valid e \<and> e_time e \<le> now) ys"
    "map e_tag ys = map e_tag xsF" "list_all e_valid xsF"
    unfolding recency_rel_def by blast
  have s: "set ys = set xsL" using ys(1) by (rule mset_eq_setD)
  have "length xsF = length ys" using ys(4) by (metis length_map)
  also have "\<dots> = length xsL" using ys(1) by (rule mset_eq_length)
  finally show "length xsF = length xsL" .
  have "e_tag ` set xsF = set (map e_tag ys)" using ys(4) by simp
  then show t: "e_tag ` set xsF = e_tag ` set xsL" using s by simp
  show v: "list_all e_valid xsL" using ys(3) s by (auto simp: list_all_iff)
  show "find_hit tag xsF = None \<longleftrightarrow> find_hit tag xsL = None"
    using t v ys(5) by (simp add: find_hit_valid_iff)
  have "mset (map e_time ys) = mset (map e_time xsL)" using ys(1) by (metis mset_map)
  then show "distinct (map e_time xsL)"
    using ys(2) mset_eq_imp_distinct_iff by blast
qed

lemma recency_rel_later:
  "recency_rel now xsF xsL \<Longrightarrow> now \<le> now' \<Longrightarrow> recency_rel now' xsF xsL"
  unfolding recency_rel_def list_all_iff by (meson order_trans)

lemma recency_rel_append:
  assumes r: "recency_rel now xsF xsL" and miss: "find_hit tag xsF = None"
    and later: "now < now'"
  shows "recency_rel now' (xsF @ [(tag, True, now')]) (xsL @ [(tag, True, now')])"
proof -
  from r obtain ys where ys: "mset ys = mset xsL"
    "sorted (map e_time ys)" "distinct (map e_time ys)" "distinct (map e_tag ys)"
    "list_all (\<lambda>e. e_valid e \<and> e_time e \<le> now) ys"
    "map e_tag ys = map e_tag xsF" "list_all e_valid xsF"
    unfolding recency_rel_def by blast
  have fresh: "tag \<notin> set (map e_tag ys)"
    using miss ys(6,7) by (simp add: find_hit_valid_iff)
  have old: "\<forall>e\<in>set ys. e_time e \<le> now" using ys(5) by (simp add: list_all_iff)
  let ?n = "(tag, True, now')"
  have n: "e_tag ?n = tag" "e_valid ?n" "e_time ?n = now'"
    by (simp_all add: e_tag_def e_valid_def e_time_def)
  have "mset (ys @ [?n]) = mset (xsL @ [?n])" using ys(1) by simp
  moreover have "sorted (map e_time (ys @ [?n]))"
    using ys(2) old later n by (auto simp: sorted_append)
  moreover have "distinct (map e_time (ys @ [?n]))"
    using ys(3) old later n by auto
  moreover have "distinct (map e_tag (ys @ [?n]))"
    using ys(4) fresh n by auto
  moreover have "list_all (\<lambda>e. e_valid e \<and> e_time e \<le> now') (ys @ [?n])"
    using ys(5) later n by (auto simp: list_all_iff)
  moreover have "map e_tag (ys @ [?n]) = map e_tag (xsF @ [?n])"
    using ys(6) by simp
  moreover have "list_all e_valid (xsF @ [?n])"
    using ys(7) n by simp
  ultimately show ?thesis unfolding recency_rel_def by blast
qed

lemma recency_rel_touch:
  assumes r: "recency_rel now xsF xsL"
    and hF: "find_hit tag xsF = Some kF" and hL: "find_hit tag xsL = Some kL"
    and later: "now < now'"
  shows "recency_rel now' (touch ''F'' now' xsF kF) (touch ''L'' now' xsL kL)"
proof -
  from r obtain ys where ys: "mset ys = mset xsL"
    "sorted (map e_time ys)" "distinct (map e_time ys)" "distinct (map e_tag ys)"
    "list_all (\<lambda>e. e_valid e \<and> e_time e \<le> now) ys"
    "map e_tag ys = map e_tag xsF" "list_all e_valid xsF"
    unfolding recency_rel_def by blast
  have s: "set ys = set xsL" using ys(1) by (rule mset_eq_setD)
  have old: "\<forall>e\<in>set ys. e_time e \<le> now" "\<forall>e\<in>set ys. e_valid e"
    using ys(5) by (simp_all add: list_all_iff)
  note fF = find_hit_Some [OF hF] and fL = find_hit_Some [OF hL]
  let ?eF = "xsF ! kF" and ?eL = "xsL ! kL" and ?n = "(tag, True, now')"
  have n: "e_tag ?n = tag" "e_valid ?n" "e_time ?n = now'"
    by (simp_all add: e_tag_def e_valid_def e_time_def)
  have eF: "?eF \<in> set xsF" and eL: "?eL \<in> set ys"
    using fF fL s by simp_all
  have tF: "touch ''F'' now' xsF kF = remove1 ?eF xsF @ [?eF]"
    by (rule touch_F)
  have tL: "touch ''L'' now' xsL kL = xsL[kL := ?n]"
    using hit_entry(1) [OF hL, of now'] by (simp add: touch_L)
  let ?ys = "remove1 ?eL ys @ [?n]"
  have sub: "set (remove1 ?eL ys) \<subseteq> set ys" by (rule set_remove1_subset)
  have "mset ?ys = mset (xsL[kL := ?n])"
    using fL ys(1) by (simp add: mset_update)
  moreover have le: "\<forall>e\<in>set (remove1 ?eL ys). e_time e \<le> now'"
    using old(1) sub later by force
  have "sorted (map e_time ?ys)"
    using sorted_map_remove1 [OF ys(2), of ?eL] le n
    by (simp add: sorted_append)
  moreover have times: "map e_time (remove1 ?eL ys) = remove1 (e_time ?eL) (map e_time ys)"
    using ys(3) eL by (rule map_remove1_distinct)
  have "distinct (map e_time ?ys)"
  proof -
    have "distinct (map e_time (remove1 ?eL ys))"
      unfolding times using ys(3) by simp
    moreover have "\<forall>e\<in>set (remove1 ?eL ys). e_time e < now'"
      using old(1) sub later by force
    then have "now' \<notin> e_time ` set (remove1 ?eL ys)" by blast
    ultimately show ?thesis using n by simp
  qed
  moreover have tags: "map e_tag (remove1 ?eL ys) = remove1 tag (map e_tag ys)"
    using map_remove1_distinct [OF ys(4) eL] fL by simp
  have "distinct (map e_tag ?ys)"
  proof -
    have "distinct (remove1 tag (map e_tag ys))" using ys(4) by simp
    moreover have "tag \<notin> set (remove1 tag (map e_tag ys))" using ys(4) by simp
    ultimately show ?thesis unfolding map_append tags using n by simp
  qed
  moreover have "\<forall>e\<in>set (remove1 ?eL ys). e_valid e \<and> e_time e \<le> now'"
    using old(2) sub le by blast
  then have "list_all (\<lambda>e. e_valid e \<and> e_time e \<le> now') ?ys"
    using n by (simp add: list_all_iff)
  moreover have "map e_tag ?ys = map e_tag (remove1 ?eF xsF @ [?eF])"
  proof -
    have "distinct (map e_tag xsF)" using ys(4,6) by simp
    then have "map e_tag (remove1 ?eF xsF) = remove1 tag (map e_tag xsF)"
      using map_remove1_distinct [of e_tag xsF ?eF] eF fF by simp
    then show ?thesis using tags ys(6) fF n by simp
  qed
  moreover have "list_all e_valid (remove1 ?eF xsF @ [?eF])"
    using ys(7) eF set_remove1_subset [of ?eF xsF] by (auto simp: list_all_iff)
  ultimately show ?thesis unfolding recency_rel_def tF tL by blast
qed

lemma recency_rel_replace_at:
  assumes r: "recency_rel now (oldest # restF) xsL"
    and miss: "find_hit tag (oldest # restF) = None"
    and later: "now < now'"
    and m: "m < length xsL"
    and least: "\<forall>j<length xsL. e_time (xsL ! m) \<le> e_time (xsL ! j)"
  shows "recency_rel now' (restF @ [(tag, True, now')]) (xsL[m := (tag, True, now')])"
proof -
  let ?n = "(tag, True, now')"
  from r obtain ys where ys: "mset ys = mset xsL"
    "sorted (map e_time ys)" "distinct (map e_time ys)" "distinct (map e_tag ys)"
    "list_all (\<lambda>e. e_valid e \<and> e_time e \<le> now) ys"
    "map e_tag ys = map e_tag (oldest # restF)" "list_all e_valid (oldest # restF)"
    unfolding recency_rel_def by blast
  from ys(6) obtain y ys' where y: "ys = y # ys'" by (cases ys) auto
  have s: "set ys = set xsL" using ys(1) by (rule mset_eq_setD)
  have n: "e_tag ?n = tag" "e_valid ?n" "e_time ?n = now'"
    by (simp_all add: e_tag_def e_valid_def e_time_def)
  have old: "\<forall>e\<in>set ys. e_time e \<le> now" "\<forall>e\<in>set ys. e_valid e"
    using ys(5) by (simp_all add: list_all_iff)
  have "tag \<notin> e_tag ` set (oldest # restF)"
    using find_hit_valid_iff [OF ys(7), of tag] miss by blast
  moreover have "set (map e_tag ys) = e_tag ` set (oldest # restF)"
    unfolding ys(6) by (rule set_map)
  ultimately have fresh: "tag \<notin> set (map e_tag ys)" by blast
  have vin: "xsL ! m \<in> set ys" unfolding s using m by (rule nth_mem)
  have yin: "y \<in> set ys" unfolding y by simp
  then have "y \<in> set xsL" using s by simp
  then obtain j where "j < length xsL" "xsL ! j = y" by (meson in_set_conv_nth)
  with least have "e_time (xsL ! m) \<le> e_time y" by metis
  moreover have "e_time y \<le> e_time (xsL ! m)"
    using ys(2) vin unfolding y by auto
  ultimately have teq: "e_time (xsL ! m) = e_time y" by simp
  have inj: "inj_on e_time (set ys)" using ys(3) by (simp add: distinct_map)
  have victim: "xsL ! m = y"
    using inj teq vin yin by (rule inj_onD)
  have "mset (xsL[m := ?n]) = add_mset ?n (mset xsL - {#xsL ! m#})"
    using m by (rule mset_update)
  also have "mset xsL - {#xsL ! m#} = mset ys'"
    unfolding victim ys(1) [symmetric] y by simp
  finally have "mset (ys' @ [?n]) = mset (xsL[m := ?n])" by simp
  moreover have "sorted (map e_time (ys' @ [?n]))"
    using ys(2) old(1) later n unfolding y by (auto simp: sorted_append)
  moreover have "distinct (map e_time (ys' @ [?n]))"
    using ys(3) old(1) later n unfolding y by auto
  moreover have "distinct (map e_tag (ys' @ [?n]))"
    using ys(4) fresh n unfolding y by auto
  moreover have "list_all (\<lambda>e. e_valid e \<and> e_time e \<le> now') (ys' @ [?n])"
    using old later n unfolding y by (auto simp: list_all_iff)
  moreover have "map e_tag (ys' @ [?n]) = map e_tag (restF @ [?n])"
    using ys(6) unfolding y by simp
  moreover have "list_all e_valid (restF @ [?n])"
    using ys(7) n by simp
  ultimately show ?thesis unfolding recency_rel_def by blast
qed

lemma recency_rel_replace:
  assumes r: "recency_rel now (oldest # restF) (first # restL)"
    and miss: "find_hit tag (oldest # restF) = None"
    and later: "now < now'"
  shows "recency_rel now' (restF @ [(tag, True, now')])
    ((first # restL)[lru_scan restL 1 (e_time first) 0 := (tag, True, now')])"
  using r miss later
proof (rule recency_rel_replace_at)
  show "lru_scan restL 1 (e_time first) 0 < length (first # restL)"
    using lru_victim [of restL first] by blast
  show "\<forall>j<length (first # restL).
      e_time ((first # restL) ! lru_scan restL 1 (e_time first) 0)
        \<le> e_time ((first # restL) ! j)"
    using lru_victim [of restL first] by blast
qed

lemma recency_rel_install:
  assumes r: "recency_rel now xsF xsL" and miss: "find_hit tag xsF = None"
    and later: "now < now'"
  shows "rel_sum (=) (recency_rel now')
    (install ''F'' drawF a (a \<le> int (length xsF)) xsF (tag, True, now'))
    (install ''L'' drawL a (a \<le> int (length xsL)) xsL (tag, True, now'))"
proof -
  have len: "length xsF = length xsL" using r by (rule recency_rel_facts)
  show ?thesis
  proof (cases "a \<le> int (length xsF)")
    case False
    with len recency_rel_append [OF r miss later] show ?thesis
      by (simp add: install_def)
  next
    case True
    show ?thesis
    proof (cases xsF)
      case Nil
      with len True show ?thesis by (simp add: install_def)
    next
      case (Cons oldest restF)
      with len obtain first restL where l: "xsL = first # restL" by (cases xsL) auto
      from recency_rel_replace [OF r [unfolded Cons l] miss [unfolded Cons] later]
      show ?thesis using True len unfolding Cons l by (simp add: install_def)
    qed
  qed
qed

lemma access_cache_unfold:
  assumes "get_address_components self address = (tag, index)"
  shows "access_cache rnd self address =
    (case py_index (cache self) index of
       Inl e \<Rightarrow> Inl e
     | Inr i \<Rightarrow>
        (case find_hit tag (cache self ! i) of
           Some k \<Rightarrow>
             Inr (self\<lparr>total_accesses := total_accesses self + 1, hits := hits self + 1,
               cache := (cache self)
                 [i := touch (subst self) (total_accesses self + 1) (cache self ! i) k]\<rparr>)
         | None \<Rightarrow>
            (case install (subst self) (rnd (total_accesses self + 1)) (assoc self)
                (assoc self \<le> int (length (cache self ! i))) (cache self ! i)
                (tag, True, total_accesses self + 1) of
               Inl e \<Rightarrow> Inl e
             | Inr set' \<Rightarrow>
                 Inr ((classify_miss (self\<lparr>total_accesses := total_accesses self + 1\<rparr>)
                    tag index (assoc self \<le> int (length (cache self ! i)))
                    (nsets self * assoc self
                       \<le> sum_list (map (\<lambda>s. int (length s)) (cache self))))
                   \<lparr>cache := (cache self)[i := set']\<rparr>))))"
  using assms
  by (simp add: access_cache_def Let_def split: sum.splits option.splits)

lemma classify_miss_counters_eq:
  assumes "counters s = counters s'" and "seen_tags s = seen_tags s'"
  shows "counters (classify_miss s tag index sf cf) = counters (classify_miss s' tag index sf cf)"
  using assms by (simp add: classify_miss_def counters_def Let_def)

lemma counters_cache_update: "counters (s\<lparr>cache := c\<rparr>) = counters s"
  by (simp add: counters_def)

lemma fifo_lru_lengths:
  assumes "fifo_lru_rel selfF selfL"
  shows "map (\<lambda>s. int (length s)) (cache selfF) = map (\<lambda>s. int (length s)) (cache selfL)"
proof (rule nth_equalityI)
  show "length (map (\<lambda>s. int (length s)) (cache selfF))
      = length (map (\<lambda>s. int (length s)) (cache selfL))"
    using assms by (simp add: fifo_lru_rel_def)
next
  fix i assume "i < length (map (\<lambda>s. int (length s)) (cache selfF))"
  then have i: "i < length (cache selfF)" "i < length (cache selfL)"
    using assms by (simp_all add: fifo_lru_rel_def)
  with assms have "recency_rel (total_accesses selfL) (cache selfF ! i) (cache selfL ! i)"
    by (simp add: fifo_lru_rel_def)
  then have "length (cache selfF ! i) = length (cache selfL ! i)"
    by (rule recency_rel_facts)
  with i show "map (\<lambda>s. int (length s)) (cache selfF) ! i
      = map (\<lambda>s. int (length s)) (cache selfL) ! i"
    by simp
qed

lemma fifo_lru_sets_update:
  assumes all: "\<forall>j<length cF. recency_rel now (cF ! j) (cL ! j)"
    and len: "length cF = length cL" and i: "i < length cF"
    and new: "recency_rel now' xF xL" and later: "now \<le> now'"
  shows "\<forall>j<length (cF[i := xF]). recency_rel now' (cF[i := xF] ! j) (cL[i := xL] ! j)"
proof (intro allI impI)
  fix j assume "j < length (cF[i := xF])"
  then have j: "j < length cF" by simp
  show "recency_rel now' (cF[i := xF] ! j) (cL[i := xL] ! j)"
  proof (cases "j = i")
    case True
    with i len new show ?thesis by simp
  next
    case False
    have "recency_rel now (cF ! j) (cL ! j)" using all j by simp
    then have "recency_rel now' (cF ! j) (cL ! j)" using later by (rule recency_rel_later)
    with False show ?thesis by simp
  qed
qed

lemma access_cache_fifo_lru:
  assumes rel: "fifo_lru_rel selfF selfL"
  shows "rel_sum (=) fifo_lru_rel
    (access_cache rndF selfF address) (access_cache rndL selfL address)"
proof -
  obtain tag index where dF: "get_address_components selfF address = (tag, index)"
    by (cases "get_address_components selfF address")
  have dL: "get_address_components selfL address = (tag, index)"
    using dF rel by (simp add: get_address_components_def fifo_lru_rel_def)
  have nn: "0 \<le> index" using decode_index_nonneg [of selfF address] dF by simp
  from rel have len: "length (cache selfF) = length (cache selfL)"
    and cnt: "counters selfF = counters selfL"
    and seen: "seen_tags selfF = seen_tags selfL"
    and pol: "subst selfF = ''F''" "subst selfL = ''L''"
    and cfg: "nsets selfF = nsets selfL" "assoc selfF = assoc selfL"
      "offset_bits selfF = offset_bits selfL" "index_bits selfF = index_bits selfL"
    and sets: "\<forall>i<length (cache selfF).
      recency_rel (total_accesses selfL) (cache selfF ! i) (cache selfL ! i)"
    by (simp_all add: fifo_lru_rel_def)
  have tot: "total_accesses selfF = total_accesses selfL"
    using cnt by (simp add: counters_def)
  show ?thesis
  proof (cases "nat index < length (cache selfF)")
    case False
    then have "py_index (cache selfF) index = Inl IndexError"
      "py_index (cache selfL) index = Inl IndexError"
      using nn len by (simp_all add: py_index_Inl)
    then show ?thesis
      unfolding access_cache_unfold [OF dF] access_cache_unfold [OF dL] by simp
  next
    case True
    let ?i = "nat index"
    have pi: "py_index (cache selfF) index = Inr ?i" "py_index (cache selfL) index = Inr ?i"
      using nn len True by (simp_all add: py_index_Inr)
    let ?xF = "cache selfF ! ?i" and ?xL = "cache selfL ! ?i"
    let ?now = "total_accesses selfL"
    have r: "recency_rel ?now ?xF ?xL" using sets True by simp
    note facts = recency_rel_facts [OF r]
    show ?thesis
    proof (cases "find_hit tag ?xF")
      case (Some kF)
      with facts(3) [of tag] obtain kL where kL: "find_hit tag ?xL = Some kL" by auto
      have t: "recency_rel (?now + 1)
          (touch ''F'' (?now + 1) ?xF kF) (touch ''L'' (?now + 1) ?xL kL)"
        using r Some kL by (rule recency_rel_touch) simp
      have "fifo_lru_rel
        (selfF\<lparr>total_accesses := total_accesses selfF + 1, hits := hits selfF + 1,
           cache := (cache selfF)
             [?i := touch (subst selfF) (total_accesses selfF + 1) ?xF kF]\<rparr>)
        (selfL\<lparr>total_accesses := total_accesses selfL + 1, hits := hits selfL + 1,
           cache := (cache selfL)
             [?i := touch (subst selfL) (total_accesses selfL + 1) ?xL kL]\<rparr>)"
        unfolding fifo_lru_rel_def
        using pol cfg cnt seen len tot
          fifo_lru_sets_update [OF sets len True t]
        by (simp add: counters_def)
      then show ?thesis
        unfolding access_cache_unfold [OF dF] access_cache_unfold [OF dL]
        using pi Some kL by simp
    next
      case None
      then have nL: "find_hit tag ?xL = None" using facts(3) by simp
      have fl: "(assoc selfF \<le> int (length ?xF)) = (assoc selfL \<le> int (length ?xL))"
        using facts(1) cfg by simp
      have cf: "(nsets selfF * assoc selfF
            \<le> sum_list (map (\<lambda>s. int (length s)) (cache selfF)))
          = (nsets selfL * assoc selfL
            \<le> sum_list (map (\<lambda>s. int (length s)) (cache selfL)))"
        using fifo_lru_lengths [OF rel] cfg by simp
      let ?iF = "install ''F'' (rndF (?now + 1)) (assoc selfL)
          (assoc selfL \<le> int (length ?xF)) ?xF (tag, True, ?now + 1)"
      let ?iL = "install ''L'' (rndL (?now + 1)) (assoc selfL)
          (assoc selfL \<le> int (length ?xL)) ?xL (tag, True, ?now + 1)"
      have inst: "rel_sum (=) (recency_rel (?now + 1)) ?iF ?iL"
        using r None by (rule recency_rel_install) simp
      let ?cF = "classify_miss (selfF\<lparr>total_accesses := total_accesses selfF + 1\<rparr>)
          tag index (assoc selfF \<le> int (length ?xF))
          (nsets selfF * assoc selfF \<le> sum_list (map (\<lambda>s. int (length s)) (cache selfF)))"
      let ?cL = "classify_miss (selfL\<lparr>total_accesses := total_accesses selfL + 1\<rparr>)
          tag index (assoc selfL \<le> int (length ?xL))
          (nsets selfL * assoc selfL \<le> sum_list (map (\<lambda>s. int (length s)) (cache selfL)))"
      have cc: "counters ?cF = counters ?cL"
        unfolding fl cf
        by (rule classify_miss_counters_eq) (use cnt seen in \<open>simp_all add: counters_def\<close>)
      have step: "fifo_lru_rel (?cF\<lparr>cache := (cache selfF)[?i := xF']\<rparr>)
          (?cL\<lparr>cache := (cache selfL)[?i := xL']\<rparr>)"
        if "recency_rel (?now + 1) xF' xL'" for xF' xL'
        unfolding fifo_lru_rel_def
        using pol cfg seen len cc
          fifo_lru_sets_update [OF sets len True that]
        by (simp add: counters_cache_update)
      show ?thesis
      proof (cases ?iF)
        case (Inl e)
        with inst obtain e' where "?iL = Inl e'" "e = e'" by (cases ?iL) auto
        with Inl show ?thesis
          unfolding access_cache_unfold [OF dF] access_cache_unfold [OF dL]
          using pi None nL pol cfg tot by simp
      next
        case (Inr xF')
        with inst obtain xL' where x: "?iL = Inr xL'" "recency_rel (?now + 1) xF' xL'"
          by (cases ?iL) auto
        from step [OF x(2)] Inr x(1) show ?thesis
          unfolding access_cache_unfold [OF dF] access_cache_unfold [OF dL]
          using pi None nL pol cfg tot by simp
      qed
    qed
  qed
qed

lemma run_fifo_lru:
  "fifo_lru_rel selfF selfL \<Longrightarrow>
   rel_sum (=) fifo_lru_rel (run rndF selfF trace) (run rndL selfL trace)"
proof (induction trace arbitrary: selfF selfL)
  case Nil
  then show ?case by simp
next
  case (Cons address trace)
  note step = access_cache_fifo_lru [OF Cons.prems, of rndF address rndL]
  show ?case
  proof (cases "access_cache rndF selfF address")
    case (Inl e)
    with step show ?thesis by (cases "access_cache rndL selfL address") simp_all
  next
    case (Inr s1)
    with step obtain s2 where "access_cache rndL selfL address = Inr s2" "fifo_lru_rel s1 s2"
      by (cases "access_cache rndL selfL address") simp_all
    with Inr Cons.IH [of s1 s2] show ?thesis by simp
  qed
qed

lemma Cache_init_fifo_lru: "fifo_lru_rel (Cache_init n b a ''F'') (Cache_init n b a ''L'')"
  by (simp add: fifo_lru_rel_def Cache_init_def upper_F upper_L counters_def recency_rel_def)

lemma fifo_lru_is_hit:
  assumes rel: "fifo_lru_rel selfF selfL"
  shows "is_hit selfF address = is_hit selfL address"
proof -
  obtain tag index where dF: "get_address_components selfF address = (tag, index)"
    by (cases "get_address_components selfF address")
  have dL: "get_address_components selfL address = (tag, index)"
    using dF rel by (simp add: get_address_components_def fifo_lru_rel_def)
  have nn: "0 \<le> index" using decode_index_nonneg [of selfF address] dF by simp
  from rel have len: "length (cache selfF) = length (cache selfL)"
    by (simp add: fifo_lru_rel_def)
  show ?thesis
  proof (cases "nat index < length (cache selfF)")
    case False
    then have "py_index (cache selfF) index = Inl IndexError"
      "py_index (cache selfL) index = Inl IndexError"
      using nn len by (simp_all add: py_index_Inl)
    then show ?thesis by (simp add: is_hit_def target_set_def dF dL)
  next
    case True
    then have t: "target_set selfF address = cache selfF ! nat index"
      "target_set selfL address = cache selfL ! nat index"
      using dF dL nn len by (simp_all add: target_set_eq)
    have "recency_rel (total_accesses selfL) (cache selfF ! nat index) (cache selfL ! nat index)"
      using rel True by (simp add: fifo_lru_rel_def)
    from recency_rel_facts(3) [OF this, of tag] show ?thesis
      by (simp add: is_hit_def t dF dL)
  qed
qed

lemma fifo_lru_resident:
  assumes rel: "fifo_lru_rel selfF selfL"
  shows "map (\<lambda>xs. e_tag ` set xs) (cache selfF) = map (\<lambda>xs. e_tag ` set xs) (cache selfL)"
    and "list_all (\<lambda>xs. distinct (map e_time xs)) (cache selfL)"
proof -
  from rel have len: "length (cache selfF) = length (cache selfL)"
    and sets: "\<And>i. i < length (cache selfF) \<Longrightarrow>
      recency_rel (total_accesses selfL) (cache selfF ! i) (cache selfL ! i)"
    by (simp_all add: fifo_lru_rel_def)
  show "map (\<lambda>xs. e_tag ` set xs) (cache selfF) = map (\<lambda>xs. e_tag ` set xs) (cache selfL)"
  proof (rule nth_equalityI)
    show "length (map (\<lambda>xs. e_tag ` set xs) (cache selfF))
        = length (map (\<lambda>xs. e_tag ` set xs) (cache selfL))"
      using len by simp
  next
    fix i assume "i < length (map (\<lambda>xs. e_tag ` set xs) (cache selfF))"
    then have i: "i < length (cache selfF)" "i < length (cache selfL)" using len by simp_all
    from recency_rel_facts(2) [OF sets [OF i(1)]] i
    show "map (\<lambda>xs. e_tag ` set xs) (cache selfF) ! i
        = map (\<lambda>xs. e_tag ` set xs) (cache selfL) ! i"
      by simp
  qed
  show "list_all (\<lambda>xs. distinct (map e_time xs)) (cache selfL)"
    unfolding list_all_length
  proof (intro allI impI)
    fix i assume "i < length (cache selfL)"
    then have "i < length (cache selfF)" using len by simp
    from recency_rel_facts(5) [OF sets [OF this]]
    show "distinct (map e_time (cache selfL ! i))" .
  qed
qed

text \<open>
  C10. For every configuration (number of sets, block size, associativity), every trace
  and any two generators, the run under policy \<open>'F'\<close> and the run under policy
  \<open>'L'\<close> end alike: both raise the same exception, or both return, and then the six
  counters are equal, every address hits in the one final object exactly when it hits in
  the other, each set holds the same tags in both, and the order keys within each set of
  the LRU object are pairwise distinct. Since this holds for every trace, it holds after
  every prefix, so each single access has the same hit or miss outcome in both runs. The
  reason is the relation \<open>recency_rel\<close>: the FIFO list of a set is the LRU set
  sorted by order key, so the front entry FIFO pops is the entry of smallest order key
  that the LRU scan selects.
\<close>

theorem fifo_lru_same_outcomes:
  "rel_sum (=)
     (\<lambda>selfF selfL. counters selfF = counters selfL
        \<and> (\<forall>address. is_hit selfF address = is_hit selfL address)
        \<and> map (\<lambda>xs. e_tag ` set xs) (cache selfF) = map (\<lambda>xs. e_tag ` set xs) (cache selfL)
        \<and> list_all (\<lambda>xs. distinct (map e_time xs)) (cache selfL))
     (simulate rndF n b a ''F'' trace) (simulate rndL n b a ''L'' trace)"
proof -
  have "rel_sum (=) fifo_lru_rel
      (simulate rndF n b a ''F'' trace) (simulate rndL n b a ''L'' trace)"
    unfolding simulate_def using Cache_init_fifo_lru by (rule run_fifo_lru)
  then show ?thesis
  proof (rule sum.rel_mono_strong)
    fix selfF selfL assume r: "fifo_lru_rel selfF selfL"
    then have "counters selfF = counters selfL" by (simp add: fifo_lru_rel_def)
    with fifo_lru_is_hit [OF r] fifo_lru_resident [OF r]
    show "counters selfF = counters selfL
        \<and> (\<forall>address. is_hit selfF address = is_hit selfL address)
        \<and> map (\<lambda>xs. e_tag ` set xs) (cache selfF) = map (\<lambda>xs. e_tag ` set xs) (cache selfL)
        \<and> list_all (\<lambda>xs. distinct (map e_time xs)) (cache selfL)"
      by blast
  qed simp
qed

lemma fifo_lru_example:
  "map_sum id counters (simulate zero_draws 2 1 2 ''F'' [0, 2, 0, 4, 2, 1, 6, 0])
     = Inr (8, 1, 7, 5, 0, 2)
   \<and> map_sum id counters (simulate zero_draws 2 1 2 ''L'' [0, 2, 0, 4, 2, 1, 6, 0])
     = Inr (8, 1, 7, 5, 0, 2)"
  by (simp add: eval_defs upper_F upper_L)

section \<open>When a run returns\<close>

text \<open>
  With a positive associativity and one of the three policy letters, installing never
  raises: a full set is then non-empty, and the drawn position lies inside it.
\<close>

lemma install_returns:
  assumes "0 < a" and "pol = ''R'' \<or> pol = ''F'' \<or> pol = ''L''"
  shows "\<exists>set'. install pol draw a (a \<le> int (length xs)) xs new = Inr set'"
proof (cases "a \<le> int (length xs)")
  case False
  then show ?thesis by (simp add: install_def)
next
  case True
  with assms(1) obtain first rest where x: "xs = first # rest" by (cases xs) auto
  have r: "randint draw 0 (a - 1) = Inr (draw mod a)"
    using assms(1) by (simp add: randint_def)
  have "draw mod a < a" using assms(1) by (rule pos_mod_bound)
  then have "draw mod a < int (length xs)" using True by linarith
  moreover have "0 \<le> draw mod a" using assms(1) by simp
  ultimately have "0 \<le> draw mod a" "draw mod a < int (length xs)" by blast+
  then have p: "py_index xs (draw mod a) = Inr (nat (draw mod a))"
    by (simp add: py_index_Inr)
  from assms(2) show ?thesis
  proof (elim disjE)
    assume "pol = ''R''"
    with True r p show ?thesis by (simp add: install_def)
  next
    assume "pol = ''F''"
    with True x show ?thesis by (simp add: install_def)
  next
    assume "pol = ''L''"
    with True x show ?thesis by (simp add: install_def)
  qed
qed

lemma access_cache_returns:
  assumes "0 < assoc self"
    and "subst self = ''R'' \<or> subst self = ''F'' \<or> subst self = ''L''"
    and "snd (get_address_components self address) < int (length (cache self))"
  shows "\<exists>self'. access_cache rnd self address = Inr self'"
proof -
  obtain tag index where d: "get_address_components self address = (tag, index)"
    by (cases "get_address_components self address")
  have nn: "0 \<le> index" using decode_index_nonneg [of self address] d by simp
  with assms(3) d have p: "py_index (cache self) index = Inr (nat index)"
    by (simp add: py_index_Inr)
  show ?thesis
  proof (cases "find_hit tag (cache self ! nat index)")
    case (Some k)
    with p show ?thesis unfolding access_cache_unfold [OF d] by simp
  next
    case None
    from install_returns [OF assms(1,2)] obtain set' where
      "install (subst self) (rnd (total_accesses self + 1)) (assoc self)
         (assoc self \<le> int (length (cache self ! nat index))) (cache self ! nat index)
         (tag, True, total_accesses self + 1) = Inr set'"
      by blast
    with p None show ?thesis unfolding access_cache_unfold [OF d] by simp
  qed
qed

lemma access_cache_raises:
  assumes "access_cache rnd self address = Inl e" and "0 < assoc self"
    and "subst self = ''R'' \<or> subst self = ''F'' \<or> subst self = ''L''"
  shows "e = IndexError
    \<and> int (length (cache self)) \<le> snd (get_address_components self address)"
proof -
  obtain tag index where d: "get_address_components self address = (tag, index)"
    by (cases "get_address_components self address")
  have nn: "0 \<le> index" using decode_index_nonneg [of self address] d by simp
  have "\<not> index < int (length (cache self))"
    using access_cache_returns [OF assms(2,3), of address rnd] assms(1) d by auto
  then have "py_index (cache self) index = Inl IndexError"
    using nn by (simp add: py_index_Inl)
  with assms(1) have "e = IndexError"
    unfolding access_cache_unfold [OF d] by simp
  with \<open>\<not> index < int (length (cache self))\<close> d show ?thesis by simp
qed

lemma upper_valid: "valid_config n b a s \<Longrightarrow> upper s = s"
  by (auto simp: valid_config_def upper_R upper_F upper_L)

text \<open>
  For a configuration that passes the validation of \<^verbatim>\<open>main\<close>, a run returns exactly
  when every address of the trace decodes to an index below \<open>num_sets\<close>. The index has
  \<open>log2 num_sets\<close> bits, so it can reach \<open>num_sets\<close> or more when \<open>num_sets\<close> is not
  a power of two.
\<close>

lemma run_total:
  assumes v: "valid_config n b a s"
  shows "(\<exists>self'. simulate rnd n b a s trace = Inr self') \<longleftrightarrow>
    (\<forall>address\<in>set trace. snd (get_address_components (Cache_init n b a s) address) < n)"
proof -
  let ?c0 = "Cache_init n b a s"
  have pos: "0 < a" "0 < n" using v by (simp_all add: valid_config_def)
  have pol: "subst ?c0 = ''R'' \<or> subst ?c0 = ''F'' \<or> subst ?c0 = ''L''"
    using v upper_valid [OF v] by (simp add: Cache_init_def valid_config_def)
  have shape: "same_shape ?c0 self \<Longrightarrow> 0 < assoc self
      \<and> (subst self = ''R'' \<or> subst self = ''F'' \<or> subst self = ''L'')
      \<and> int (length (cache self)) = n
      \<and> get_address_components self = get_address_components ?c0" for self
    using pos pol same_shape_decode [of ?c0 self]
    by (simp add: same_shape_def Cache_init_def)
  have "(\<exists>self'. run rnd self trace = Inr self') \<longleftrightarrow>
      (\<forall>address\<in>set trace. snd (get_address_components ?c0 address) < n)"
    if "cache_ok self" "same_shape ?c0 self" for self
    using that
  proof (induction trace arbitrary: self)
    case Nil
    then show ?case by simp
  next
    case (Cons address trace)
    note sh = shape [OF Cons.prems(2)]
    show ?case
    proof (cases "snd (get_address_components ?c0 address) < n")
      case True
      with sh have "snd (get_address_components self address) < int (length (cache self))"
        by simp
      with sh obtain self1 where a: "access_cache rnd self address = Inr self1"
        using access_cache_returns [of self address rnd] by blast
      note ok = access_cache_ok [OF a Cons.prems(1)]
      then have "same_shape ?c0 self1"
        using Cons.prems(2) by (blast intro: same_shape_trans)
      with Cons.IH [of self1] ok True a show ?thesis by simp
    next
      case False
      obtain tag index where d: "get_address_components self address = (tag, index)"
        by (cases "get_address_components self address")
      have nn: "0 \<le> index" using decode_index_nonneg [of self address] d by simp
      have "int (length (cache self)) = n" using sh by simp
      moreover have "\<not> index < n" using False sh d by simp
      ultimately have "length (cache self) \<le> nat index"
        using nn by linarith
      then have "py_index (cache self) index = Inl IndexError"
        using nn by (simp add: py_index_Inl)
      then have "access_cache rnd self address = Inl IndexError"
        unfolding access_cache_unfold [OF d] by simp
      with False show ?thesis by simp
    qed
  qed
  from this [OF Cache_init_ok same_shape_refl] pos show ?thesis
    by (simp add: simulate_def)
qed

text \<open>
  The only exception a run of a validated configuration can end with is the
  \<^verbatim>\<open>IndexError\<close> of the subscript \<^verbatim>\<open>self.cache[index]\<close>.
\<close>

lemma run_raises:
  assumes v: "valid_config n b a s" and "simulate rnd n b a s trace = Inl e"
  shows "e = IndexError"
proof -
  let ?c0 = "Cache_init n b a s"
  have pos: "0 < a" using v by (simp add: valid_config_def)
  have pol: "subst ?c0 = ''R'' \<or> subst ?c0 = ''F'' \<or> subst ?c0 = ''L''"
    using v upper_valid [OF v] by (simp add: Cache_init_def valid_config_def)
  have "e = IndexError"
    if "run rnd self trace = Inl e" "cache_ok self" "same_shape ?c0 self" for self
    using that
  proof (induction trace arbitrary: self)
    case Nil
    then show ?case by simp
  next
    case (Cons address trace)
    have c: "0 < assoc self" "subst self = ''R'' \<or> subst self = ''F'' \<or> subst self = ''L''"
      using Cons.prems(3) pos pol by (simp_all add: same_shape_def Cache_init_def)
    show ?case
    proof (cases "access_cache rnd self address")
      case (Inl e')
      with Cons.prems(1) have "e' = e" by simp
      with access_cache_raises [OF Inl c] show ?thesis by simp
    next
      case (Inr self1)
      note ok = access_cache_ok [OF Inr Cons.prems(2)]
      then have "same_shape ?c0 self1"
        using Cons.prems(3) by (blast intro: same_shape_trans)
      with Cons.IH [of self1] ok Inr Cons.prems(1) show ?thesis by simp
    qed
  qed
  from this [OF _ Cache_init_ok same_shape_refl] assms(2) pos show ?thesis
    by (simp add: simulate_def)
qed

lemma log2_power: "log2 (2 ^ k) = k"
proof (rule antisym)
  show "log2 (2 ^ k) \<le> k" using log2_le [of "2 ^ k" k] by simp
  have "(2::int) ^ k \<le> 2 ^ log2 (2 ^ k)"
    using log2_le [of "2 ^ k" "log2 (2 ^ k)"] by simp
  then show "k \<le> log2 (2 ^ k)" by simp
qed

text \<open>
  When \<open>num_sets\<close> is a power of two, every trace runs to its end.
\<close>

lemma run_total_power_of_two:
  assumes "valid_config (2 ^ k) b a s"
  shows "\<exists>self'. simulate rnd (2 ^ k) b a s trace = Inr self'"
  unfolding run_total [OF assms]
proof
  fix address
  have "snd (get_address_components (Cache_init (2 ^ k) b a s) address)
      = (address div 2 ^ log2 b) mod 2 ^ k"
    unfolding get_address_components_def
    by (simp add: Cache_init_def and_index_mask drop_bit_eq_div log2_power del: push_bit_of_1)
  then show "snd (get_address_components (Cache_init (2 ^ k) b a s) address) < 2 ^ k"
    by simp
qed

text \<open>
  With three sets, the address 3 decodes to index 3 and the access raises.
\<close>

lemma run_raises_example:
  "valid_config 3 1 1 ''L'' \<and> map_sum id counters (simulate rnd 3 1 1 ''L'' [3]) = Inl IndexError"
  by (simp add: eval_defs upper_L valid_config_def)

end
